theory Spec2Isabelle
  imports Main "HOL-Library.Signed_Division" "HOL-Library.Monad_Syntax"
begin

unbundle bit_operations_syntax

section \<open>Miller-Rabin primality testing with Montgomery arithmetic (isPrime.js)\<close>

text \<open>
  The program computes on JavaScript BigInts, which are unbounded integers: they are
  modelled by \<^typ>\<open>int\<close>. On BigInts \<open>&\<close> and \<open>|\<close> are the two's complement
  operations (\<open>AND\<close>, \<open>OR\<close>), \<open>a >> k\<close> is the flooring shift \<open>drop_bit k a\<close>,
  \<open>a << k\<close> is \<open>push_bit k a\<close>, \<open>/\<close> and \<open>%\<close> truncate towards zero
  (\<open>sdiv\<close>, \<open>smod\<close>). A BigInt is truthy when it is not zero. Counters that start
  at zero and are only incremented (bit positions, shift amounts, loop indices) are
  natural numbers.

  A loop of the source that does not return on every input is a partial function into
  \<open>option\<close>: the value \<open>None\<close> stands for a run that does not return.
\<close>

subsection \<open>bitLength\<close>

text \<open>
  \<open>bitLength(n)\<close> is \<open>n.toString(2).length\<close>. \<open>BigInt.prototype.toString(2)\<close>
  prints the binary digits of the magnitude, most significant first, a single \<open>0\<close> for
  zero, and a leading minus sign for a negative number.
\<close>

fun binaryDigits :: "nat \<Rightarrow> string" where
  "binaryDigits m =
     (if m < 2 then [if m = 0 then CHR ''0'' else CHR ''1'']
      else binaryDigits (m div 2) @ [if m mod 2 = 0 then CHR ''0'' else CHR ''1''])"

declare binaryDigits.simps [simp del]

definition toString2 :: "int \<Rightarrow> string" where
  "toString2 n = (if n < 0 then CHR ''-'' # binaryDigits (nat (- n)) else binaryDigits (nat n))"

definition bitLength :: "int \<Rightarrow> nat" where
  "bitLength n = length (toString2 n)"

subsection \<open>invertPowerOfTwo\<close>

function invertPowerOfTwo_loop :: "nat \<Rightarrow> nat \<Rightarrow> int \<Rightarrow> int \<Rightarrow> int" where
  "invertPowerOfTwo_loop i exp base inv' =
     (if i < exp
      then invertPowerOfTwo_loop (i + 1) exp base
             (drop_bit 1 (if inv' AND 1 \<noteq> 0 then inv' + base else inv'))
      else inv')"
  by pat_completeness auto
termination
  by (relation "measure (\<lambda>(i, exp, base, inv'). exp - i)") auto

declare invertPowerOfTwo_loop.simps [simp del]

definition invertPowerOfTwo :: "nat \<Rightarrow> int \<Rightarrow> int" where
  "invertPowerOfTwo exp base = invertPowerOfTwo_loop 0 exp base 1"

subsection \<open>twoMultiplicity\<close>

text \<open>
  The scan \<open>while (true) { if (n & (ONE << m)) return m; m++ }\<close> returns only when
  it meets a set bit at position \<open>m\<close> or above.
\<close>

partial_function (option) twoMultiplicity_loop :: "int \<Rightarrow> nat \<Rightarrow> nat option" where
  "twoMultiplicity_loop n m =
     (if n AND push_bit m 1 \<noteq> 0 then Some m else twoMultiplicity_loop n (m + 1))"

declare twoMultiplicity_loop.simps [code]

definition twoMultiplicity :: "int \<Rightarrow> nat option" where
  "twoMultiplicity n = (if n = 0 then Some 0 else twoMultiplicity_loop n 0)"

subsection \<open>Montgomery reduction contexts\<close>

datatype error =
    OddBaseError        \<comment> \<open>\<open>Error("base must be odd")\<close>\<close>
  | RangeError int      \<comment> \<open>\<open>RangeError("invalid base (must be in the range [2, n-2]): b")\<close>\<close>
  | BasesTypeError      \<comment> \<open>\<open>TypeError("invalid bases option (must be an array)")\<close>\<close>
  | MixTypeError        \<comment> \<open>the engine's \<open>TypeError\<close> for a BigInt operation on \<open>undefined\<close>\<close>

record MontgomeryReductionContext =
  ctx_base :: int
  ctx_shift :: nat
  ctx_r :: int
  ctx_rInv :: int
  ctx_baseInv :: int

definition getReductionContext :: "int \<Rightarrow> error + MontgomeryReductionContext" where
  "getReductionContext base =
     (if base AND 1 = 0 then Inl OddBaseError
      else
        let numBits = bitLength base;
            littleShift = numBits;
            shift = littleShift;
            r = push_bit shift 1;
            rInv = invertPowerOfTwo littleShift base;
            baseInv = r - (((rInv * r - 1) sdiv base) smod r)
        in Inr \<lparr>ctx_base = base, ctx_shift = shift, ctx_r = r, ctx_rInv = rInv,
                 ctx_baseInv = baseInv\<rparr>)"

text \<open>
  The divisor of every \<open>%\<close> and \<open>/\<close> below is the modulus of a context or its
  auxiliary modulus \<open>r\<close>; in a context built by \<open>getReductionContext\<close> the first is odd
  and the second a power of two, so no division by zero arises.
\<close>

definition montgomeryReduce :: "int \<Rightarrow> MontgomeryReductionContext \<Rightarrow> int" where
  "montgomeryReduce n ctx = push_bit (ctx_shift ctx) n smod ctx_base ctx"

definition invMontgomeryReduce :: "int \<Rightarrow> MontgomeryReductionContext \<Rightarrow> int" where
  "invMontgomeryReduce n ctx = (n * ctx_rInv ctx) smod ctx_base ctx"

text \<open>The value of \<open>product\<close> in \<open>montgomeryMul\<close> before it is folded into range.\<close>

definition montgomeryMul_product :: "int \<Rightarrow> int \<Rightarrow> MontgomeryReductionContext \<Rightarrow> int" where
  "montgomeryMul_product a b ctx =
     (let rm1 = ctx_r ctx - 1;
          unredProduct = a * b;
          t = (((unredProduct AND rm1) * ctx_baseInv ctx) AND rm1) * ctx_base ctx
      in drop_bit (ctx_shift ctx) (unredProduct - t))"

definition montgomeryMul :: "int \<Rightarrow> int \<Rightarrow> MontgomeryReductionContext \<Rightarrow> int" where
  "montgomeryMul a b ctx =
     (if a = 0 \<or> b = 0 then 0
      else
        let product = montgomeryMul_product a b ctx
        in if product \<ge> ctx_base ctx then product - ctx_base ctx
           else if product < 0 then product + ctx_base ctx
           else product)"

definition montgomerySqr :: "int \<Rightarrow> MontgomeryReductionContext \<Rightarrow> int" where
  "montgomerySqr n ctx = montgomeryMul n n ctx"

function montgomeryPow_loop ::
  "int \<Rightarrow> nat \<Rightarrow> MontgomeryReductionContext \<Rightarrow> nat \<Rightarrow> int \<Rightarrow> int \<Rightarrow> int" where
  "montgomeryPow_loop exp expLen ctx i x result =
     (if i < expLen
      then montgomeryPow_loop exp expLen ctx (i + 1) (montgomerySqr x ctx)
             (if exp AND push_bit i 1 \<noteq> 0 then montgomeryMul result x ctx else result)
      else result)"
  by pat_completeness auto
termination
  by (relation "measure (\<lambda>(exp, expLen, ctx, i, x, result). expLen - i)") auto

declare montgomeryPow_loop.simps [simp del]

definition montgomeryPow :: "int \<Rightarrow> int \<Rightarrow> MontgomeryReductionContext \<Rightarrow> int" where
  "montgomeryPow n exp ctx =
     montgomeryPow_loop exp (bitLength exp) ctx 0 n (montgomeryReduce 1 ctx)"

subsection \<open>ugcd\<close>

text \<open>
  The three inner \<open>while\<close> loops of \<open>ugcd\<close> halve a number until a low bit is set,
  and the main loop runs until the operands meet; none of them returns on every pair of
  BigInts (halving zero never ends), so each is a partial function.
\<close>

partial_function (option) ugcd_shared :: "int \<Rightarrow> int \<Rightarrow> nat \<Rightarrow> (int \<times> int \<times> nat) option" where
  "ugcd_shared a b sharedTwoFactors =
     (if (a AND 1) OR (b AND 1) = 0
      then ugcd_shared (drop_bit 1 a) (drop_bit 1 b) (sharedTwoFactors + 1)
      else Some (a, b, sharedTwoFactors))"

partial_function (option) ugcd_strip :: "int \<Rightarrow> int option" where
  "ugcd_strip a = (if a AND 1 = 0 then ugcd_strip (drop_bit 1 a) else Some a)"

partial_function (option) ugcd_loop :: "int \<Rightarrow> int \<Rightarrow> int option" where
  "ugcd_loop a b =
     (if a \<noteq> b \<and> b > 1
      then do {
        a1 \<leftarrow> ugcd_strip a;
        b1 \<leftarrow> ugcd_strip b;
        if b1 > a1 then ugcd_loop (b1 - a1) a1
        else if a1 = b1 then Some b1
        else ugcd_loop (a1 - b1) b1
      }
      else Some b)"

declare ugcd_shared.simps [code] ugcd_strip.simps [code] ugcd_loop.simps [code]

definition ugcd :: "int \<Rightarrow> int \<Rightarrow> int option" where
  "ugcd a b =
     (if a = b then Some a
      else if a = 0 then Some b
      else if b = 0 then Some a
      else do {
        (a1, b1, sharedTwoFactors) \<leftarrow> ugcd_shared a b 0;
        g \<leftarrow> ugcd_loop a1 b1;
        Some (push_bit sharedTwoFactors g)
      })"

subsection \<open>validateBases\<close>

text \<open>
  The \<open>bases\<close> option is absent (\<open>null\<close> or \<open>undefined\<close>), an array, or some other
  value. The elements of an array are taken after their conversion to BigInt.
\<close>

datatype bases_value = BasesNull | BasesArray "int list" | BasesOther

fun validateBases_map :: "int list \<Rightarrow> int \<Rightarrow> error + int list" where
  "validateBases_map [] nSub = Inr []"
| "validateBases_map (b # bs) nSub =
     (if \<not> (b \<ge> 2) \<or> \<not> (b < nSub) then Inl (RangeError b)
      else case validateBases_map bs nSub of
             Inl e \<Rightarrow> Inl e
           | Inr vs \<Rightarrow> Inr (b # vs))"

definition validateBases :: "bases_value \<Rightarrow> int \<Rightarrow> error + int list option" where
  "validateBases bases nSub =
     (case bases of
        BasesNull \<Rightarrow> Inr None
      | BasesArray bs \<Rightarrow>
          (case validateBases_map bs nSub of Inl e \<Rightarrow> Inl e | Inr vs \<Rightarrow> Inr (Some vs))
      | BasesOther \<Rightarrow> Inl BasesTypeError)"

subsection \<open>getAdaptiveNumRounds\<close>

definition getAdaptiveNumRounds :: "nat \<Rightarrow> nat" where
  "getAdaptiveNumRounds inputBits =
     (if inputBits > 1000 then 2
      else if inputBits > 500 then 3
      else if inputBits > 250 then 4
      else if inputBits > 150 then 5
      else 6)"

subsection \<open>primalityTest\<close>

text \<open>
  The argument \<open>n\<close> and the elements of \<open>bases\<close> are taken after their conversion to
  BigInt. The options are \<open>numRounds\<close> (absent or a number), \<open>bases\<close>, \<open>findDivisor\<close>
  and \<open>small_determinism_mode\<close>; the result has the fields \<open>n\<close>, \<open>probablePrime\<close>,
  \<open>witness\<close> and \<open>divisor\<close>, the last two null or a BigInt.
\<close>

record PrimalityTestOptions =
  opt_numRounds :: "int option"
  opt_bases :: bases_value
  opt_findDivisor :: bool
  opt_small_determinism_mode :: bool

record PrimalityResult =
  res_n :: int
  res_probablePrime :: bool
  res_witness :: "int option"
  res_divisor :: "int option"

text \<open>
  The calls that \<open>primalityTest\<close> makes to the Montgomery routines are recorded, in
  program order, beside its outcome.
\<close>

datatype mont_call =
    CallGetReductionContext int
  | CallMontgomeryReduce int
  | CallMontgomeryPow int int
  | CallMontgomerySqr int
  | CallInvMontgomeryReduce int

text \<open>
  \<open>Math.random\<close> is not modelled. The random source is a list of integers, one for each
  call of \<open>getRandomBitString\<close>; the string returned for \<open>numBits\<close> is the low
  \<open>numBits\<close> binary digits of the next element, so that \<open>BigInt("0b" + bits)\<close> is
  \<open>take_bit numBits\<close> of it. The \<open>do ... while\<close> loop draws until a base lies in
  \<open>[2, n-2]\<close>; when the source is used up the run has no outcome.
\<close>

fun getRandomBase :: "nat \<Rightarrow> int \<Rightarrow> int list \<Rightarrow> (int \<times> int list) option" where
  "getRandomBase nBits nSub [] = None"
| "getRandomBase nBits nSub (v # rnd) =
     (let base = take_bit nBits v
      in if \<not> (base \<ge> 2) \<or> \<not> (base < nSub) then getRandomBase nBits nSub rnd
         else Some (base, rnd))"

text \<open>
  A read of \<open>validBases[baseIndex]\<close> past the end of the array gives \<open>undefined\<close>, on
  which the first BigInt operation of the round raises a \<open>TypeError\<close>.
\<close>

definition selectBase ::
  "int list option \<Rightarrow> nat \<Rightarrow> nat \<Rightarrow> int \<Rightarrow> int list \<Rightarrow> (error + int \<times> nat \<times> int list) option" where
  "selectBase validBases baseIndex nBits nSub rnd =
     (case validBases of
        Some bs \<Rightarrow>
          if baseIndex < length bs then Some (Inr (bs ! baseIndex, baseIndex + 1, rnd))
          else Some (Inl MixTypeError)
      | None \<Rightarrow>
          (case getRandomBase nBits nSub rnd of
             None \<Rightarrow> None
           | Some (base, rnd') \<Rightarrow> Some (Inr (base, baseIndex, rnd'))))"

text \<open>
  The divisor derived from the last \<open>x\<close> when a base has witnessed compositeness
  (the same four lines at both exits of the round).
\<close>

definition witnessDivisor ::
  "bool \<Rightarrow> int \<Rightarrow> MontgomeryReductionContext \<Rightarrow> int \<Rightarrow> (mont_call list \<times> int option) option" where
  "witnessDivisor findDivisor x ctx n =
     (if findDivisor
      then do {
        divisor \<leftarrow> ugcd (invMontgomeryReduce x ctx - 1) n;
        Some ([CallInvMontgomeryReduce x], if divisor = 1 then None else Some divisor)
      }
      else Some ([], None))"

text \<open>The inner loop over \<open>i < r\<close> and the way it is left.\<close>

datatype inner_exit =
    SquareIsOne int         \<comment> \<open>\<open>y === oneReduced\<close>, \<open>break outer\<close>, with the current \<open>x\<close>\<close>
  | SquareIsMinusOne        \<comment> \<open>\<open>y === nSubReduced\<close>, \<open>break\<close> with \<open>i < r\<close>\<close>
  | NoMoreSquares int       \<comment> \<open>the loop ran out, \<open>i === r\<close>, with the current \<open>x\<close>\<close>

function millerRabinLoop ::
  "MontgomeryReductionContext \<Rightarrow> int \<Rightarrow> int \<Rightarrow> nat \<Rightarrow> nat \<Rightarrow> int \<Rightarrow> mont_call list \<times> inner_exit" where
  "millerRabinLoop ctx oneReduced nSubReduced r i x =
     (if i < r
      then
        let y = montgomerySqr x ctx
        in if y = oneReduced then ([CallMontgomerySqr x], SquareIsOne x)
           else if y = nSubReduced then ([CallMontgomerySqr x], SquareIsMinusOne)
           else case millerRabinLoop ctx oneReduced nSubReduced r (i + 1) y of
                  (calls, e) \<Rightarrow> (CallMontgomerySqr x # calls, e)
      else ([], NoMoreSquares x))"
  by pat_completeness auto
termination
  by (relation "measure (\<lambda>(ctx, oneReduced, nSubReduced, r, i, x). r - i)") auto

declare millerRabinLoop.simps [simp del]

text \<open>One round for a chosen base: it passes, or the base is a witness.\<close>

datatype round_exit = NextRound | Composite int "int option"

definition strongTest ::
  "int \<Rightarrow> nat \<Rightarrow> int \<Rightarrow> MontgomeryReductionContext \<Rightarrow> int \<Rightarrow> int \<Rightarrow> bool \<Rightarrow> int
     \<Rightarrow> (mont_call list \<times> round_exit) option" where
  "strongTest n r d ctx oneReduced nSubReduced findDivisor base =
     (let baseReduced = montgomeryReduce base ctx;
          x = montgomeryPow baseReduced d ctx;
          calls0 = [CallMontgomeryReduce base, CallMontgomeryPow baseReduced d]
      in if x = oneReduced \<or> x = nSubReduced then Some (calls0, NextRound)
         else case millerRabinLoop ctx oneReduced nSubReduced r 0 x of
                (calls1, SquareIsOne x') \<Rightarrow> do {
                  (calls2, divisor) \<leftarrow> witnessDivisor findDivisor x' ctx n;
                  Some (calls0 @ calls1 @ calls2, Composite base divisor)
                }
              | (calls1, SquareIsMinusOne) \<Rightarrow> Some (calls0 @ calls1, NextRound)
              | (calls1, NoMoreSquares x') \<Rightarrow> do {
                  (calls2, divisor) \<leftarrow> witnessDivisor findDivisor x' ctx n;
                  Some (calls0 @ calls1 @ calls2, Composite base divisor)
                })"

definition testBase ::
  "int \<Rightarrow> nat \<Rightarrow> int \<Rightarrow> MontgomeryReductionContext \<Rightarrow> int \<Rightarrow> int \<Rightarrow> bool \<Rightarrow> int
     \<Rightarrow> (mont_call list \<times> round_exit) option" where
  "testBase n r d ctx oneReduced nSubReduced findDivisor base =
     (if findDivisor
      then do {
        g \<leftarrow> ugcd n base;
        if g \<noteq> 1 then Some ([], Composite base (Some g))
        else strongTest n r d ctx oneReduced nSubReduced findDivisor base
      }
      else strongTest n r d ctx oneReduced nSubReduced findDivisor base)"

text \<open>
  The loop over the rounds; \<open>test\<close> is the body of a round for the chosen base. It ends
  with the values of \<open>probablePrime\<close>, \<open>witness\<close> and \<open>divisor\<close>.
\<close>

function roundsLoop ::
  "(int \<Rightarrow> (mont_call list \<times> round_exit) option) \<Rightarrow> nat \<Rightarrow> int \<Rightarrow> int list option
     \<Rightarrow> nat \<Rightarrow> nat \<Rightarrow> nat \<Rightarrow> int list
     \<Rightarrow> (mont_call list \<times> (error + bool \<times> int option \<times> int option)) option" where
  "roundsLoop test nBits nSub validBases numRounds round baseIndex rnd =
     (if round < numRounds
      then
        case selectBase validBases baseIndex nBits nSub rnd of
          None \<Rightarrow> None
        | Some (Inl e) \<Rightarrow> Some ([], Inl e)
        | Some (Inr (base, baseIndex', rnd')) \<Rightarrow>
            (case test base of
               None \<Rightarrow> None
             | Some (calls, Composite witness divisor) \<Rightarrow>
                 Some (calls, Inr (False, Some witness, divisor))
             | Some (calls, NextRound) \<Rightarrow>
                 (case roundsLoop test nBits nSub validBases numRounds (round + 1) baseIndex' rnd' of
                    None \<Rightarrow> None
                  | Some (calls', v) \<Rightarrow> Some (calls @ calls', v)))
      else Some ([], Inr (True, None, None)))"
  by pat_completeness auto
termination
  by (relation "measure (\<lambda>(test, nBits, nSub, validBases, numRounds, round, baseIndex, rnd).
        numRounds - round)") auto

declare roundsLoop.simps [simp del]

text \<open>The table of bases of \<open>small_determinism_mode\<close>.\<close>

definition smallDeterminismBases :: "int \<Rightarrow> int list" where
  "smallDeterminismBases n =
     (if n < 2047 then [2]
      else if n < 1373653 then [2, 3]
      else if n < 25326001 then [2, 3, 5]
      else if n < 3215031751 then [2, 3, 5, 7]
      else if n < 2152302898747 then [2, 3, 5, 7, 11]
      else if n < 3474749660383 then [2, 3, 5, 7, 11, 13]
      else [2, 3, 5, 7, 11, 13, 17])"

text \<open>
  The number of rounds: the number of validated bases, else the caller's \<open>numRounds\<close>
  unless it is absent or below one, else the adaptive number.
\<close>

definition chooseNumRounds :: "int list option \<Rightarrow> int option \<Rightarrow> nat \<Rightarrow> nat" where
  "chooseNumRounds validBases numRounds nBits =
     (case validBases of
        Some bs \<Rightarrow> length bs
      | None \<Rightarrow>
          (case numRounds of
             None \<Rightarrow> getAdaptiveNumRounds nBits
           | Some k \<Rightarrow> if k < 1 then getAdaptiveNumRounds nBits else nat k))"

text \<open>
  The end of the run: the promise is resolved with the result built from the loop's
  variables, or rejected with the exception caught; \<open>n\<close> is here \<open>sign * n\<close>.
\<close>

fun settle ::
  "int \<Rightarrow> mont_call list \<Rightarrow> (mont_call list \<times> (error + bool \<times> int option \<times> int option)) option
     \<Rightarrow> (mont_call list \<times> (error + PrimalityResult)) option" where
  "settle n calls0 None = None"
| "settle n calls0 (Some (calls, Inl e)) = Some (calls0 @ calls, Inl e)"
| "settle n calls0 (Some (calls, Inr (probablePrime, witness, divisor))) =
     Some (calls0 @ calls,
       Inr \<lparr>res_n = n, res_probablePrime = probablePrime, res_witness = witness,
            res_divisor = divisor\<rparr>)"

text \<open>
  The test proper, reached for an odd \<open>n\<close> of at least five (from
  \<open>const nBits = bitLength(n)\<close> to the final \<open>resolve\<close>). An exception is caught and
  rejects the promise.
\<close>

definition millerRabin ::
  "int \<Rightarrow> int \<Rightarrow> bases_value \<Rightarrow> int option \<Rightarrow> bool \<Rightarrow> int list
     \<Rightarrow> (mont_call list \<times> (error + PrimalityResult)) option" where
  "millerRabin sign n bases numRounds findDivisor rnd =
     (let nBits = bitLength n;
          nSub = n - 1
      in case twoMultiplicity nSub of
           None \<Rightarrow> None
         | Some r \<Rightarrow>
             let d = drop_bit r nSub
             in case getReductionContext n of
                  Inl e \<Rightarrow> Some ([CallGetReductionContext n], Inl e)
                | Inr reductionContext \<Rightarrow>
                    let oneReduced = montgomeryReduce 1 reductionContext;
                        nSubReduced = montgomeryReduce nSub reductionContext;
                        calls0 = [CallGetReductionContext n, CallMontgomeryReduce 1,
                                  CallMontgomeryReduce nSub]
                    in case validateBases bases nSub of
                         Inl e \<Rightarrow> Some (calls0, Inl e)
                       | Inr validBases \<Rightarrow>
                           settle (sign * n) calls0
                             (roundsLoop
                                (testBase n r d reductionContext oneReduced nSubReduced
                                   findDivisor)
                                nBits nSub validBases
                                (chooseNumRounds validBases numRounds nBits) 0 0 rnd))"

text \<open>
  The entry point: the sign is set aside, the small and the even numbers are answered at
  once, and \<open>small_determinism_mode\<close> replaces the bases for a number below
  \<open>341550071728321\<close>. The outcome is the list of Montgomery calls made and the resolved
  result or the error of the rejection.
\<close>

definition primalityTest ::
  "int \<Rightarrow> PrimalityTestOptions \<Rightarrow> int list
     \<Rightarrow> (mont_call list \<times> (error + PrimalityResult)) option" where
  "primalityTest n0 options rnd =
     (let sign = (if n0 < 0 then - 1 else 1);
          n = (if sign = - 1 then - n0 else n0)
      in if n < 2
         then Some ([], Inr \<lparr>res_n = sign * n, res_probablePrime = False,
                             res_witness = None, res_divisor = None\<rparr>)
         else if n < 4
         then Some ([], Inr \<lparr>res_n = sign * n, res_probablePrime = True,
                             res_witness = None, res_divisor = None\<rparr>)
         else if n AND 1 = 0
         then Some ([], Inr \<lparr>res_n = sign * n, res_probablePrime = False,
                             res_witness = None, res_divisor = Some 2\<rparr>)
         else
           let bases =
                 (if opt_small_determinism_mode options \<and> n < 341550071728321
                  then BasesArray (smallDeterminismBases n)
                  else opt_bases options)
           in millerRabin sign n bases (opt_numRounds options) (opt_findDivisor options) rnd)"

subsection \<open>Well-formed contexts\<close>

text \<open>
  The facts about a context that the Montgomery routines rely on; every context built by
  \<open>getReductionContext\<close> for an odd modulus of at least three has them.
\<close>

definition ctx_ok :: "MontgomeryReductionContext \<Rightarrow> bool" where
  "ctx_ok ctx \<longleftrightarrow>
     odd (ctx_base ctx) \<and> 3 \<le> ctx_base ctx \<and> ctx_r ctx = 2 ^ ctx_shift ctx \<and>
     ctx_base ctx < ctx_r ctx \<and> 0 < ctx_rInv ctx \<and> ctx_rInv ctx < ctx_base ctx \<and>
     (ctx_rInv ctx * ctx_r ctx) mod ctx_base ctx = 1 \<and>
     (ctx_base ctx * ctx_baseInv ctx) mod ctx_r ctx = 1"

subsection \<open>The parts of a run on an odd number\<close>

text \<open>
  Names for three expressions of \<open>primalityTest\<close> on an odd \<open>n\<close> of at least five: the
  bases in force, the Montgomery calls made before the bases are validated, and the
  loop over the rounds as it is started.
\<close>

definition basesInForce :: "PrimalityTestOptions \<Rightarrow> int \<Rightarrow> bases_value" where
  "basesInForce options n =
     (if opt_small_determinism_mode options \<and> n < 341550071728321
      then BasesArray (smallDeterminismBases n)
      else opt_bases options)"

definition setupCalls :: "int \<Rightarrow> mont_call list" where
  "setupCalls n = [CallGetReductionContext n, CallMontgomeryReduce 1, CallMontgomeryReduce (n - 1)]"

definition rounds ::
  "int \<Rightarrow> nat \<Rightarrow> MontgomeryReductionContext \<Rightarrow> bool \<Rightarrow> int option \<Rightarrow> int list option
     \<Rightarrow> int list \<Rightarrow> (mont_call list \<times> (error + bool \<times> int option \<times> int option)) option" where
  "rounds n r ctx findDivisor numRounds validBases rnd =
     roundsLoop
       (testBase n r (drop_bit r (n - 1)) ctx (montgomeryReduce 1 ctx)
          (montgomeryReduce (n - 1) ctx) findDivisor)
       (bitLength n) (n - 1) validBases
       (chooseNumRounds validBases numRounds (bitLength n)) 0 0 rnd"

subsection \<open>Invariants of a round\<close>

text \<open>
  A value carried through a round is a unit in Montgomery form: it lies in \<open>[0, n)\<close>
  and is coprime to \<open>n\<close>. A round ends well when the base passes, or is a witness
  whose divisor, if any, is a proper divisor of \<open>n\<close>.
\<close>

definition unitForm :: "MontgomeryReductionContext \<Rightarrow> int \<Rightarrow> bool" where
  "unitForm ctx x \<longleftrightarrow> 0 \<le> x \<and> x < ctx_base ctx \<and> coprime x (ctx_base ctx)"

definition goodExit :: "int \<Rightarrow> int \<Rightarrow> round_exit \<Rightarrow> bool" where
  "goodExit n base ex \<longleftrightarrow>
     ex = NextRound \<or>
     (\<exists>dv. ex = Composite base dv \<and> (\<forall>g. dv = Some g \<longrightarrow> g dvd n \<and> 1 < g \<and> g < n))"

subsection \<open>Two calls compared\<close>

text \<open>
  The option objects \<open>{bases: [2,3,5,7,11,13,17]}\<close> and
  \<open>{small_determinism_mode: true}\<close>, each with the defaults of the other options.
\<close>

definition sevenBasesCall :: PrimalityTestOptions where
  "sevenBasesCall =
     \<lparr>opt_numRounds = None, opt_bases = BasesArray [2, 3, 5, 7, 11, 13, 17],
      opt_findDivisor = True, opt_small_determinism_mode = False\<rparr>"

definition smallDeterminismCall :: PrimalityTestOptions where
  "smallDeterminismCall =
     \<lparr>opt_numRounds = None, opt_bases = BasesNull, opt_findDivisor = True,
      opt_small_determinism_mode = True\<rparr>"

section \<open>Properties\<close>

subsection \<open>Bit length\<close>

lemma binaryDigits_nonempty: "binaryDigits m \<noteq> []"
  by (subst binaryDigits.simps) simp

lemma binaryDigits_length_bounds:
  "0 < m \<Longrightarrow> 2 ^ (length (binaryDigits m) - 1) \<le> m \<and> m < 2 ^ length (binaryDigits m)"
proof (induction m rule: binaryDigits.induct)
  case (1 m)
  show ?case
  proof (cases "m < 2")
    case True
    with 1(2) have "m = 1" by simp
    then show ?thesis by (simp add: binaryDigits.simps)
  next
    case False
    then have pos: "0 < m div 2" by simp
    from 1(1)[OF False pos]
    have ih: "2 ^ (length (binaryDigits (m div 2)) - 1) \<le> m div 2"
      "m div 2 < 2 ^ length (binaryDigits (m div 2))" by simp_all
    have len: "length (binaryDigits m) = Suc (length (binaryDigits (m div 2)))"
      using False by (subst binaryDigits.simps) simp
    have lpos: "0 < length (binaryDigits (m div 2))"
      by (simp add: binaryDigits_nonempty)
    have lower: "2 ^ (length (binaryDigits m) - 1) \<le> m"
    proof -
      have "2 * 2 ^ (length (binaryDigits (m div 2)) - 1) \<le> 2 * (m div 2)"
        using ih(1) by simp
      also have "\<dots> \<le> m" by simp
      finally show ?thesis
        using lpos by (simp add: len power_Suc[symmetric] del: power_Suc)
    qed
    have upper: "m < 2 ^ length (binaryDigits m)"
    proof -
      have "m div 2 + 1 \<le> 2 ^ length (binaryDigits (m div 2))" using ih(2) by simp
      then have "2 * (m div 2 + 1) \<le> 2 * 2 ^ length (binaryDigits (m div 2))" by simp
      moreover have "m < 2 * (m div 2 + 1)" by simp
      ultimately show ?thesis by (simp add: len)
    qed
    from lower upper show ?thesis by simp
  qed
qed

lemma bitLength_0: "bitLength 0 = 1"
  by (simp add: bitLength_def toString2_def binaryDigits.simps)

lemma bitLength_bounds:
  assumes "0 < x"
  shows "2 ^ (bitLength x - 1) \<le> x" and "x < 2 ^ bitLength x"
proof -
  from assms have "0 < nat x" by simp
  from binaryDigits_length_bounds[OF this]
  have "2 ^ (bitLength x - 1) \<le> nat x" "nat x < 2 ^ bitLength x"
    using assms by (simp_all add: bitLength_def toString2_def)
  then have "int (2 ^ (bitLength x - 1)) \<le> int (nat x)" "int (nat x) < int (2 ^ bitLength x)"
    by linarith+
  then show "2 ^ (bitLength x - 1) \<le> x" and "x < 2 ^ bitLength x"
    using assms by simp_all
qed

lemma bitLength_upper: "0 \<le> x \<Longrightarrow> x < 2 ^ bitLength x"
  using bitLength_bounds(2)[of x] by (cases "x = 0") (simp_all add: bitLength_0)

text \<open>
  C8 (as stated, fails at zero): \<open>bitLength(0)\<close> is not 0. The binary string of zero is
  \<open>"0"\<close>, of length one.
\<close>

theorem bitLength_zero_counterexample: "bitLength 0 \<noteq> 0"
  by (simp add: bitLength_0)

text \<open>
  C8 (amended): \<open>bitLength(0)\<close> returns 1, and for every positive integer \<open>x\<close>,
  \<open>bitLength(x)\<close> is the number of bits in the binary representation of \<open>x\<close>: the
  one \<open>k\<close> with \<open>2^(k-1) \<le> x < 2^k\<close>.
\<close>

theorem bitLength_spec:
  "bitLength 0 = 1 \<and> (0 < x \<longrightarrow> 2 ^ (bitLength x - 1) \<le> x \<and> x < 2 ^ bitLength x)"
  using bitLength_bounds[of x] by (simp add: bitLength_0)

theorem bitLength_spec_witness:
  "bitLength 0 = 1 \<and> (0::int) < 5 \<and> 2 ^ (bitLength 5 - 1) \<le> (5::int) \<and> (5::int) < 2 ^ bitLength 5"
  using bitLength_spec[of 5] by simp

subsection \<open>Montgomery contexts\<close>

lemma ctx_okD:
  assumes "ctx_ok ctx"
  shows "odd (ctx_base ctx)" "3 \<le> ctx_base ctx" "ctx_r ctx = 2 ^ ctx_shift ctx"
    "ctx_base ctx < 2 ^ ctx_shift ctx" "0 < ctx_rInv ctx" "ctx_rInv ctx < ctx_base ctx"
    "(ctx_rInv ctx * 2 ^ ctx_shift ctx) mod ctx_base ctx = 1"
    "(ctx_base ctx * ctx_baseInv ctx) mod 2 ^ ctx_shift ctx = 1"
  using assms by (auto simp: ctx_ok_def)

lemma and_one_int: "(v::int) AND 1 \<noteq> 0 \<longleftrightarrow> odd v" "(v::int) AND 1 = 0 \<longleftrightarrow> even v"
  by (simp_all add: and_one_eq odd_iff_mod_2_eq_one even_iff_mod_2_eq_zero)

lemma invertPowerOfTwo_loop_inv:
  "odd base \<Longrightarrow> 3 \<le> base \<Longrightarrow> 1 \<le> v \<Longrightarrow> v < base \<Longrightarrow> i \<le> e \<Longrightarrow> (v * 2 ^ i) mod base = 1 \<Longrightarrow>
   1 \<le> invertPowerOfTwo_loop i e base v \<and> invertPowerOfTwo_loop i e base v < base \<and>
   (invertPowerOfTwo_loop i e base v * 2 ^ e) mod base = 1"
proof (induction i e base v rule: invertPowerOfTwo_loop.induct)
  case (1 i e base v)
  show ?case
  proof (cases "i < e")
    case False
    with 1(6) have "i = e" by simp
    with 1 False show ?thesis by (subst (1 2 3) invertPowerOfTwo_loop.simps) simp
  next
    case True
    define w where "w = (if v AND 1 \<noteq> 0 then v + base else v)"
    define v' where "v' = drop_bit 1 w"
    have ew: "even w" using 1(2) by (auto simp: w_def and_one_int)
    have v'2: "v' * 2 = w" using ew by (auto simp: v'_def drop_bit_eq_div)
    have wm: "w mod base = v mod base" by (simp add: w_def)
    have wb: "2 \<le> w" "w < 2 * base" using 1(3,4,5) ew by (auto simp: w_def and_one_int)
    have r1: "1 \<le> v'" "v' < base" using wb v'2 by linarith+
    have "(v' * 2 ^ (i + 1)) mod base = (w * 2 ^ i) mod base"
      using v'2 by (simp add: mult.assoc[symmetric])
    also have "\<dots> = (v * 2 ^ i) mod base"
      using wm by (metis mod_mult_cong)
    finally have r2: "(v' * 2 ^ (i + 1)) mod base = 1" using 1(7) by simp
    have "i + 1 \<le> e" using True by simp
    from 1(1)[OF True 1(2) 1(3) r1[unfolded v'_def w_def] this r2[unfolded v'_def w_def]]
    show ?thesis using True by (subst (1 2 3) invertPowerOfTwo_loop.simps) simp
  qed
qed

lemma invertPowerOfTwo_correct:
  assumes "odd base" "3 \<le> base"
  shows "1 \<le> invertPowerOfTwo e base" "invertPowerOfTwo e base < base"
    "(invertPowerOfTwo e base * 2 ^ e) mod base = 1"
  using invertPowerOfTwo_loop_inv[of base 1 0 e] assms by (simp_all add: invertPowerOfTwo_def)

lemma getReductionContext_ok:
  assumes "odd base" "3 \<le> base"
  shows "\<exists>ctx. getReductionContext base = Inr ctx \<and> ctx_ok ctx \<and> ctx_base ctx = base
           \<and> ctx_shift ctx = bitLength base"
proof -
  define k where "k = bitLength base"
  define r :: int where "r = 2 ^ k"
  define rInv where "rInv = invertPowerOfTwo k base"
  define baseInv where "baseInv = r - (((rInv * r - 1) sdiv base) smod r)"
  have rpos: "0 < r" by (simp add: r_def)
  have br: "base < r" using bitLength_bounds(2)[of base] assms by (simp add: r_def k_def)
  have ri: "1 \<le> rInv" "rInv < base" "(rInv * r) mod base = 1"
    using invertPowerOfTwo_correct[OF assms, of k] by (simp_all add: rInv_def r_def)
  have nn: "0 \<le> rInv * r - 1" using ri(1) rpos
    by (smt (verit) mult_le_cancel_right1)
  define K where "K = (rInv * r - 1) div base"
  have sd: "(rInv * r - 1) sdiv base = K"
    using nn assms(2) by (simp add: signed_divide_int_def K_def sgn_if)
  have Knn: "0 \<le> K" using nn assms(2) by (simp add: K_def pos_imp_zdiv_nonneg_iff)
  have sm: "K smod r = K mod r"
    using Knn rpos by (simp add: signed_modulo_int_def sgn_if)
  have "(rInv * r) mod base = 1 mod base" using ri(3) assms(2) by simp
  then have dv: "base dvd (rInv * r - 1)" by (simp add: mod_eq_dvd_iff)
  then have KB: "K * base = rInv * r - 1" by (simp add: K_def)
  have "(base * baseInv) mod r = (base * (r - K mod r)) mod r"
    by (simp add: baseInv_def sd sm)
  also have "\<dots> = (- (base * K)) mod r"
  proof -
    have e: "base * (r - K mod r) - (- (base * K)) = base * (r + (K - K mod r))"
      by (simp add: algebra_simps)
    have "r dvd r + (K - K mod r)" by (simp add: dvd_minus_mod)
    then have "r dvd base * (r - K mod r) - (- (base * K))"
      unfolding e by (rule dvd_mult)
    then show ?thesis by (simp only: mod_eq_dvd_iff)
  qed
  also have "- (base * K) = 1 - rInv * r" using KB by (simp add: mult.commute)
  also have "(1 - rInv * r) mod r = 1 mod r" by (metis diff_0_right mod_diff_right_eq mod_mult_self1_is_0 mult.commute)
  also have "\<dots> = 1" using br assms(2) by simp
  finally have bi: "(base * baseInv) mod r = 1" .
  have odd1: "base AND 1 \<noteq> 0" using assms(1) by (simp add: and_one_int)
  have "getReductionContext base = Inr \<lparr>ctx_base = base, ctx_shift = k, ctx_r = r, ctx_rInv = rInv, ctx_baseInv = baseInv\<rparr>"
    using odd1 by (simp add: getReductionContext_def Let_def k_def r_def rInv_def baseInv_def)
  moreover have "ctx_ok \<lparr>ctx_base = base, ctx_shift = k, ctx_r = r, ctx_rInv = rInv, ctx_baseInv = baseInv\<rparr>"
    using assms br ri bi by (simp add: ctx_ok_def r_def)
  ultimately show ?thesis by (simp add: k_def)
qed

subsection \<open>Montgomery multiplication\<close>

lemma and_pow2_minus1: "(x::int) AND (2 ^ k - 1) = x mod 2 ^ k"
  by (simp add: mask_eq_exp_minus_1[symmetric] take_bit_eq_mask[symmetric] take_bit_eq_mod)

lemma montgomeryMul_product_props:
  assumes ok: "ctx_ok ctx" and a: "0 < a" "a < ctx_base ctx" and b: "0 < b" "b < ctx_base ctx"
  shows "montgomeryMul_product a b ctx * ctx_r ctx mod ctx_base ctx = (a * b) mod ctx_base ctx"
    and "- ctx_base ctx < montgomeryMul_product a b ctx"
    and "montgomeryMul_product a b ctx < ctx_base ctx"
proof -
  define B where "B = ctx_base ctx"
  define k where "k = ctx_shift ctx"
  define r :: int where "r = 2 ^ k"
  define T where "T = a * b"
  define m where "m = ((T mod r) * ctx_baseInv ctx) mod r"
  define p where "p = montgomeryMul_product a b ctx"
  from ctx_okD[OF ok] have B3: "3 \<le> B" and rr: "ctx_r ctx = r" and Br: "B < r"
    and bi: "(B * ctx_baseInv ctx) mod r = 1"
    by (simp_all add: B_def r_def k_def)
  have rpos: "0 < r" by (simp add: r_def)
  have pdef: "p = (T - m * B) div r"
    by (simp add: p_def montgomeryMul_product_def Let_def rr r_def and_pow2_minus1
        drop_bit_eq_div T_def m_def B_def k_def)
  have m_bounds: "0 \<le> m" "m < r" using rpos by (simp_all add: m_def)
  have "(m * B) mod r = (T * (B * ctx_baseInv ctx)) mod r"
    unfolding m_def by (simp add: mod_simps ac_simps)
  also have "\<dots> = (T * ((B * ctx_baseInv ctx) mod r)) mod r"
    by (simp only: mod_mult_right_eq)
  also have "\<dots> = T mod r" by (simp add: bi)
  finally have "(T - m * B) mod r = 0"
    by (metis cancel_comm_monoid_add_class.diff_cancel mod_0 mod_diff_cong)
  then have exact: "p * r = T - m * B"
    unfolding pdef by (simp add: mod_0_imp_dvd)
  have Tpos: "0 < T" using a(1) b(1) by (simp add: T_def)
  have TBB: "T < B * B" unfolding T_def using a b B_def
    by (simp add: mult_strict_mono')
  have BBr: "B * B < B * r" using Br B3 by simp
  have mB: "0 \<le> m * B" "m * B < r * B" using m_bounds B3 by simp_all
  have "p * r < B * r" using exact TBB BBr mB by linarith
  then have up: "p < B" using rpos by simp
  have "(- B) * r < p * r" using exact Tpos mB by (simp add: mult.commute)
  then have lo: "- B < p" using rpos by (simp only: mult_less_cancel_right_pos)
  have "(p * r) mod B = (T - m * B) mod B" using exact by simp
  also have "\<dots> = (T + (- m) * B) mod B" by simp
  also have "\<dots> = T mod B" by (rule mod_mult_self1)
  finally show "montgomeryMul_product a b ctx * ctx_r ctx mod ctx_base ctx = (a * b) mod ctx_base ctx"
    by (simp add: p_def rr B_def T_def)
  show "- ctx_base ctx < montgomeryMul_product a b ctx" using lo by (simp add: p_def B_def)
  show "montgomeryMul_product a b ctx < ctx_base ctx" using up by (simp add: p_def B_def)
qed

lemma mod_cancel_inverse:
  fixes x y r rInv B :: int
  assumes "(rInv * r) mod B = 1" "(x * r) mod B = y mod B"
  shows "x mod B = (y * rInv) mod B"
proof -
  have "(y * rInv) mod B = ((y mod B) * rInv) mod B" by (simp add: mod_mult_left_eq)
  also have "\<dots> = ((x * r) mod B * rInv) mod B" by (simp add: assms(2))
  also have "\<dots> = (x * (rInv * r)) mod B" by (simp add: mod_simps ac_simps)
  also have "\<dots> = (x * ((rInv * r) mod B)) mod B" by (simp only: mod_mult_right_eq)
  also have "\<dots> = x mod B" by (simp add: assms(1))
  finally show ?thesis by simp
qed

lemma montgomeryMul_correct:
  assumes ok: "ctx_ok ctx" and a: "0 \<le> a" "a < ctx_base ctx" and b: "0 \<le> b" "b < ctx_base ctx"
  shows "montgomeryMul a b ctx = (a * b * ctx_rInv ctx) mod ctx_base ctx"
proof (cases "a = 0 \<or> b = 0")
  case True
  then show ?thesis by (auto simp: montgomeryMul_def)
next
  case False
  with a b have a': "0 < a" and b': "0 < b" by simp_all
  define B where "B = ctx_base ctx"
  define p where "p = montgomeryMul_product a b ctx"
  define res where "res = montgomeryMul a b ctx"
  from ctx_okD[OF ok] have B3: "3 \<le> B" and ri: "(ctx_rInv ctx * ctx_r ctx) mod B = 1"
    by (simp_all add: B_def)
  note pp = montgomeryMul_product_props[OF ok a' a(2) b' b(2), folded p_def B_def]
  have res: "res = (if p < 0 then p + B else p)"
    using False pp(3) by (simp add: res_def montgomeryMul_def Let_def p_def B_def)
  have range: "0 \<le> res" "res < B" using pp(2,3) by (auto simp: res)
  have "res mod B = p mod B" by (simp add: res)
  also have "p mod B = (a * b * ctx_rInv ctx) mod B"
    by (rule mod_cancel_inverse[OF ri pp(1)])
  finally show ?thesis using range by (simp add: res_def B_def)
qed

text \<open>
  C6: for an odd modulus \<open>base \<ge> 3\<close>, the context of \<open>getReductionContext(base)\<close> and
  \<open>a\<close>, \<open>b\<close> in \<open>[0, base)\<close>, \<open>montgomeryMul(a, b, ctx)\<close> lies in \<open>[0, base)\<close>
  and is congruent to \<open>a * b * rInv\<close> modulo \<open>base\<close>, where \<open>rInv\<close> inverts the
  auxiliary modulus \<open>r\<close>; the value is the unfolded product, or one \<open>base\<close> more or
  less.
\<close>

theorem montgomeryMul_spec:
  assumes "odd base" "3 \<le> base" "0 \<le> a" "a < base" "0 \<le> b" "b < base"
  shows "\<exists>ctx. getReductionContext base = Inr ctx \<and>
           0 \<le> montgomeryMul a b ctx \<and> montgomeryMul a b ctx < base \<and>
           montgomeryMul a b ctx mod base = (a * b * ctx_rInv ctx) mod base \<and>
           (ctx_rInv ctx * ctx_r ctx) mod base = 1 \<and>
           (a = 0 \<or> b = 0 \<or>
            montgomeryMul a b ctx = montgomeryMul_product a b ctx \<or>
            montgomeryMul a b ctx = montgomeryMul_product a b ctx + base \<or>
            montgomeryMul a b ctx = montgomeryMul_product a b ctx - base)"
proof -
  from getReductionContext_ok[OF assms(1,2)] obtain ctx where
    c: "getReductionContext base = Inr ctx" and ok: "ctx_ok ctx" and cb: "ctx_base ctx = base"
    by blast
  have mc: "montgomeryMul a b ctx = (a * b * ctx_rInv ctx) mod base"
    using montgomeryMul_correct[OF ok, of a b] assms by (simp add: cb)
  have Bpos: "0 < base" using assms(2) by simp
  have 1: "0 \<le> montgomeryMul a b ctx" "montgomeryMul a b ctx < base"
    unfolding mc using Bpos by simp_all
  have 2: "montgomeryMul a b ctx mod base = (a * b * ctx_rInv ctx) mod base"
    unfolding mc by simp
  have 3: "(ctx_rInv ctx * ctx_r ctx) mod base = 1"
    using ctx_okD(3,7)[OF ok] by (simp add: cb)
  have 4: "a = 0 \<or> b = 0 \<or>
            montgomeryMul a b ctx = montgomeryMul_product a b ctx \<or>
            montgomeryMul a b ctx = montgomeryMul_product a b ctx + base \<or>
            montgomeryMul a b ctx = montgomeryMul_product a b ctx - base"
    by (simp add: montgomeryMul_def Let_def cb)
  from c 1 2 3 4 show ?thesis by blast
qed

theorem montgomeryMul_spec_witness:
  "odd (13::int) \<and> (3::int) \<le> 13 \<and> (0::int) \<le> 5 \<and> (5::int) < 13 \<and> (0::int) \<le> 7 \<and> (7::int) < 13 \<and>
   (\<exists>ctx. getReductionContext 13 = Inr ctx \<and>
           0 \<le> montgomeryMul 5 7 ctx \<and> montgomeryMul 5 7 ctx < 13 \<and>
           montgomeryMul 5 7 ctx mod 13 = (5 * 7 * ctx_rInv ctx) mod 13 \<and>
           (ctx_rInv ctx * ctx_r ctx) mod 13 = 1 \<and>
           ((5::int) = 0 \<or> (7::int) = 0 \<or>
            montgomeryMul 5 7 ctx = montgomeryMul_product 5 7 ctx \<or>
            montgomeryMul 5 7 ctx = montgomeryMul_product 5 7 ctx + 13 \<or>
            montgomeryMul 5 7 ctx = montgomeryMul_product 5 7 ctx - 13))"
  using montgomeryMul_spec[of 13 5 7] by simp

subsection \<open>Montgomery exponentiation\<close>

lemma smod_nonneg: "0 \<le> k \<Longrightarrow> 0 < l \<Longrightarrow> (k::int) smod l = k mod l"
  by (cases "k = 0") (simp_all add: signed_modulo_int_def sgn_if)

lemma montgomeryReduce_nonneg:
  assumes "ctx_ok ctx" "0 \<le> n"
  shows "montgomeryReduce n ctx = (n * 2 ^ ctx_shift ctx) mod ctx_base ctx"
  using ctx_okD(2)[OF assms(1)] assms(2)
  by (simp add: montgomeryReduce_def push_bit_eq_mult smod_nonneg)

lemma invMontgomeryReduce_nonneg:
  assumes "ctx_ok ctx" "0 \<le> n"
  shows "invMontgomeryReduce n ctx = (n * ctx_rInv ctx) mod ctx_base ctx"
  using ctx_okD(2,5)[OF assms(1)] assms(2)
  by (simp add: invMontgomeryReduce_def smod_nonneg)

lemma montgomeryMul_forms:
  assumes ok: "ctx_ok ctx"
  shows "montgomeryMul ((u * 2 ^ ctx_shift ctx) mod ctx_base ctx)
           ((v * 2 ^ ctx_shift ctx) mod ctx_base ctx) ctx
         = (u * v * 2 ^ ctx_shift ctx) mod ctx_base ctx"
proof -
  define B where "B = ctx_base ctx"
  define r :: int where "r = 2 ^ ctx_shift ctx"
  from ctx_okD[OF ok] have B3: "3 \<le> B" and ri: "(ctx_rInv ctx * r) mod B = 1"
    by (simp_all add: B_def r_def)
  have Bpos: "0 < B" using B3 by simp
  have "montgomeryMul ((u * r) mod B) ((v * r) mod B) ctx
          = ((u * r) mod B * ((v * r) mod B) * ctx_rInv ctx) mod B"
    unfolding B_def using ok
    by (rule montgomeryMul_correct) (simp_all add: Bpos[unfolded B_def])
  also have "\<dots> = ((u * r) * (v * r) * ctx_rInv ctx) mod B"
    by (intro mod_mult_cong refl mod_mod_trivial)
  also have "\<dots> = (u * v * r * (ctx_rInv ctx * r)) mod B"
    by (simp add: ac_simps)
  also have "\<dots> = (u * v * r * ((ctx_rInv ctx * r) mod B)) mod B"
    by (simp only: mod_mult_right_eq)
  also have "\<dots> = (u * v * r) mod B" by (simp add: ri)
  finally show ?thesis by (simp add: B_def r_def)
qed

lemma bit_test_int:
  "(e::int) AND push_bit i 1 = 0 \<longleftrightarrow> \<not> bit e i"
  "(e::int) AND 2 ^ i = 0 \<longleftrightarrow> \<not> bit e i"
  using bit_iff_and_push_bit_not_eq_0[of e i] by simp_all

lemma take_bit_step_nat:
  "nat (take_bit (Suc i) (e::int)) = nat (take_bit i e) + (if bit e i then 2 ^ i else 0)"
proof -
  have "take_bit (Suc i) e = 2 ^ i * of_bool (bit e i) + take_bit i e"
    by (rule take_bit_Suc_from_most)
  moreover have "0 \<le> take_bit i e" by simp
  ultimately show ?thesis by (simp add: nat_add_distrib nat_power_eq)
qed

lemma montgomeryPow_loop_correct:
  "ctx_ok ctx \<Longrightarrow> i \<le> L \<Longrightarrow> x = (X ^ (2 ^ i) * 2 ^ ctx_shift ctx) mod ctx_base ctx \<Longrightarrow>
     res = (X ^ nat (take_bit i e) * 2 ^ ctx_shift ctx) mod ctx_base ctx \<Longrightarrow>
     montgomeryPow_loop e L ctx i x res = (X ^ nat (take_bit L e) * 2 ^ ctx_shift ctx) mod ctx_base ctx"
proof (induction e L ctx i x res rule: montgomeryPow_loop.induct)
  case (1 e L ctx i x res)
  note ok = \<open>ctx_ok ctx\<close>
  show ?case
  proof (cases "i < L")
    case False
    with 1(3) have "i = L" by simp
    then show ?thesis using 1(5) by (subst montgomeryPow_loop.simps) simp
  next
    case True
    have sq: "montgomerySqr x ctx = (X ^ (2 ^ (i + 1)) * 2 ^ ctx_shift ctx) mod ctx_base ctx"
      unfolding montgomerySqr_def 1(4) montgomeryMul_forms[OF ok]
      by (simp add: power_add[symmetric] mult_2[symmetric])
    have rs: "(if e AND push_bit i 1 \<noteq> 0 then montgomeryMul res x ctx else res)
        = (X ^ nat (take_bit (i + 1) e) * 2 ^ ctx_shift ctx) mod ctx_base ctx"
    proof (cases "bit e i")
      case True
      then have "montgomeryMul res x ctx
          = (X ^ nat (take_bit (i + 1) e) * 2 ^ ctx_shift ctx) mod ctx_base ctx"
        unfolding 1(4) 1(5) montgomeryMul_forms[OF ok]
        by (simp add: take_bit_step_nat power_add)
      with True show ?thesis by (simp add: bit_test_int)
    next
      case False
      then show ?thesis using 1(5) by (simp add: bit_test_int take_bit_step_nat)
    qed
    have "i + 1 \<le> L" using True by simp
    from 1(1)[OF True ok this sq rs]
    show ?thesis using True by (subst montgomeryPow_loop.simps) simp
  qed
qed

lemma montgomery_form_inverse:
  assumes ok: "ctx_ok ctx" and a: "0 \<le> a" "a < ctx_base ctx"
  shows "(invMontgomeryReduce a ctx * 2 ^ ctx_shift ctx) mod ctx_base ctx = a"
proof -
  define B where "B = ctx_base ctx"
  define r :: int where "r = 2 ^ ctx_shift ctx"
  from ctx_okD[OF ok] have ri: "(ctx_rInv ctx * r) mod B = 1" by (simp_all add: B_def r_def)
  have "(invMontgomeryReduce a ctx * r) mod B = ((a * ctx_rInv ctx) mod B * r) mod B"
    by (simp add: invMontgomeryReduce_nonneg[OF ok a(1)] B_def)
  also have "\<dots> = (a * ctx_rInv ctx * r) mod B" by (simp add: mod_simps)
  also have "\<dots> = (a * (ctx_rInv ctx * r)) mod B" by (simp add: ac_simps)
  also have "\<dots> = (a * ((ctx_rInv ctx * r) mod B)) mod B" by (simp only: mod_mult_right_eq)
  also have "\<dots> = a" unfolding ri using a by (simp add: B_def)
  finally show ?thesis by (simp add: B_def r_def)
qed

lemma invMontgomeryReduce_form:
  assumes ok: "ctx_ok ctx"
  shows "invMontgomeryReduce ((u * 2 ^ ctx_shift ctx) mod ctx_base ctx) ctx = u mod ctx_base ctx"
proof -
  define B where "B = ctx_base ctx"
  define r :: int where "r = 2 ^ ctx_shift ctx"
  from ctx_okD[OF ok] have B3: "3 \<le> B" and ri: "(ctx_rInv ctx * r) mod B = 1"
    by (simp_all add: B_def r_def)
  have nn: "0 \<le> (u * r) mod B" using B3 by simp
  have "invMontgomeryReduce ((u * r) mod B) ctx = ((u * r) mod B * ctx_rInv ctx) mod B"
    using invMontgomeryReduce_nonneg[OF ok nn[unfolded B_def]] by (simp add: B_def)
  also have "\<dots> = (u * r * ctx_rInv ctx) mod B" by (simp add: mod_simps)
  also have "\<dots> = (u * (ctx_rInv ctx * r)) mod B" by (simp add: ac_simps)
  also have "\<dots> = (u * ((ctx_rInv ctx * r) mod B)) mod B" by (simp only: mod_mult_right_eq)
  also have "\<dots> = u mod B" by (simp add: ri)
  finally show ?thesis by (simp add: B_def r_def)
qed

lemma montgomeryPow_correct:
  assumes ok: "ctx_ok ctx" and a: "0 \<le> a" "a < ctx_base ctx" and e: "0 \<le> e"
  shows "montgomeryPow a e ctx
         = (invMontgomeryReduce a ctx ^ nat e * 2 ^ ctx_shift ctx) mod ctx_base ctx"
proof -
  define X where "X = invMontgomeryReduce a ctx"
  have x0: "a = (X ^ (2 ^ 0) * 2 ^ ctx_shift ctx) mod ctx_base ctx"
    using montgomery_form_inverse[OF ok a] by (simp add: X_def)
  have r0: "montgomeryReduce 1 ctx = (X ^ nat (take_bit 0 e) * 2 ^ ctx_shift ctx) mod ctx_base ctx"
    by (simp add: montgomeryReduce_nonneg[OF ok])
  have "take_bit (bitLength e) e = e"
    using bitLength_upper[OF e] e by (simp add: take_bit_int_eq_self)
  with montgomeryPow_loop_correct[OF ok _ x0 r0, of "bitLength e"]
  show ?thesis by (simp add: montgomeryPow_def X_def)
qed

text \<open>
  C1: for an odd modulus \<open>base \<ge> 3\<close>, the context of \<open>getReductionContext(base)\<close>,
  \<open>a\<close> in \<open>[0, base)\<close> and an exponent \<open>exp \<ge> 0\<close>, \<open>montgomeryPow(a, exp, ctx)\<close>
  is the Montgomery form of \<open>x^exp mod base\<close>, where \<open>x\<close> is the residue whose
  Montgomery form is \<open>a\<close>: reducing the power out gives
  \<open>invMontgomeryReduce(a)^exp mod base\<close>.
\<close>

theorem montgomeryPow_spec:
  assumes "odd base" "3 \<le> base" "0 \<le> a" "a < base" "0 \<le> exp"
  shows "\<exists>ctx. getReductionContext base = Inr ctx \<and>
           0 \<le> montgomeryPow a exp ctx \<and> montgomeryPow a exp ctx < base \<and>
           invMontgomeryReduce (montgomeryPow a exp ctx) ctx
             = invMontgomeryReduce a ctx ^ nat exp mod base \<and>
           montgomeryPow a exp ctx
             = montgomeryReduce (invMontgomeryReduce a ctx ^ nat exp mod base) ctx"
proof -
  from getReductionContext_ok[OF assms(1,2)] obtain ctx where
    c: "getReductionContext base = Inr ctx" and ok: "ctx_ok ctx" and cb: "ctx_base ctx = base"
    by blast
  have a: "0 \<le> a" "a < ctx_base ctx" using assms by (simp_all add: cb)
  note pw = montgomeryPow_correct[OF ok a assms(5)]
  have Bpos: "0 < base" using assms(2) by simp
  have 1: "0 \<le> montgomeryPow a exp ctx" "montgomeryPow a exp ctx < base"
    unfolding pw cb using Bpos by simp_all
  have 2: "invMontgomeryReduce (montgomeryPow a exp ctx) ctx
             = invMontgomeryReduce a ctx ^ nat exp mod base"
    unfolding pw invMontgomeryReduce_form[OF ok] by (simp add: cb)
  have nn: "0 \<le> invMontgomeryReduce a ctx ^ nat exp mod base" using Bpos by simp
  have 3: "montgomeryPow a exp ctx
             = montgomeryReduce (invMontgomeryReduce a ctx ^ nat exp mod base) ctx"
    unfolding pw montgomeryReduce_nonneg[OF ok nn] by (simp add: cb mod_simps)
  from c 1 2 3 show ?thesis by blast
qed


theorem montgomeryPow_spec_witness:
  "odd (13::int) \<and> (3::int) \<le> 13 \<and> (0::int) \<le> 5 \<and> (5::int) < 13 \<and> (0::int) \<le> 11 \<and>
   (\<exists>ctx. getReductionContext 13 = Inr ctx \<and>
           0 \<le> montgomeryPow 5 11 ctx \<and> montgomeryPow 5 11 ctx < 13 \<and>
           invMontgomeryReduce (montgomeryPow 5 11 ctx) ctx
             = invMontgomeryReduce 5 ctx ^ nat 11 mod 13 \<and>
           montgomeryPow 5 11 ctx
             = montgomeryReduce (invMontgomeryReduce 5 ctx ^ nat 11 mod 13) ctx)"
  using montgomeryPow_spec[of 13 5 11] by simp

subsection \<open>Binary gcd\<close>

lemma gcd_halve_left:
  fixes a b :: int
  assumes "even a" "odd b"
  shows "gcd (a div 2) b = gcd a b"
proof -
  from assms(1) obtain c where c: "a = 2 * c" by (elim evenE)
  have "coprime b 2" using assms(2) by simp
  then have "gcd (2 * c) b = gcd c b" by (rule gcd_mult_left_left_cancel)
  then show ?thesis by (simp add: c)
qed

lemma ugcd_strip_pos:
  "0 < a \<Longrightarrow> \<exists>a'. ugcd_strip a = Some a' \<and> odd a' \<and> 0 < a' \<and> a' \<le> a \<and>
      (odd a \<longrightarrow> a' = a) \<and> (\<forall>y. odd y \<longrightarrow> gcd a' y = gcd a y)"
proof (induction "nat a" arbitrary: a rule: less_induct)
  case less
  show ?case
  proof (cases "odd a")
    case True
    then have "ugcd_strip a = Some a" by (subst ugcd_strip.simps) (simp add: and_one_int)
    with True less.prems show ?thesis by simp
  next
    case False
    then have ev: "even a" by simp
    have st: "ugcd_strip a = ugcd_strip (a div 2)"
      using ev by (subst ugcd_strip.simps) (simp add: and_one_int drop_bit_eq_div)
    have pos: "0 < a div 2" using ev less.prems by (elim evenE) simp
    have lt: "nat (a div 2) < nat a" using less.prems by simp
    from less.hyps[OF lt pos] obtain a' where
      a': "ugcd_strip (a div 2) = Some a'" "odd a'" "0 < a'" "a' \<le> a div 2"
      "\<forall>y. odd y \<longrightarrow> gcd a' y = gcd (a div 2) y" by blast
    have "a div 2 \<le> a" using less.prems by simp
    with a' ev show ?thesis by (simp add: st gcd_halve_left)
  qed
qed

lemma ugcd_shared_pos:
  "0 < a \<Longrightarrow> 0 < b \<Longrightarrow> \<exists>a' b' k. ugcd_shared a b s = Some (a', b', s + k) \<and> 0 < a' \<and> 0 < b' \<and>
      (odd a' \<or> odd b') \<and> a = a' * 2 ^ k \<and> b = b' * 2 ^ k"
proof (induction "nat a" arbitrary: a b s rule: less_induct)
  case less
  show ?case
  proof (cases "even a \<and> even b")
    case False
    then have "(a AND 1) OR (b AND 1) \<noteq> 0" by (auto simp: or_eq_0_iff and_one_int)
    then have "ugcd_shared a b s = Some (a, b, s + 0)" by (subst ugcd_shared.simps) simp
    with False less.prems show ?thesis by (intro exI[of _ a] exI[of _ b] exI[of _ 0]) auto
  next
    case True
    then have "(a AND 1) OR (b AND 1) = 0" by (auto simp: or_eq_0_iff and_one_int)
    then have st: "ugcd_shared a b s = ugcd_shared (a div 2) (b div 2) (s + 1)"
      by (subst ugcd_shared.simps) (simp add: drop_bit_eq_div)
    have pos: "0 < a div 2" "0 < b div 2" using True less.prems by (auto elim!: evenE)
    have lt: "nat (a div 2) < nat a" using less.prems by simp
    from less.hyps[OF lt pos, of "s + 1"] obtain a' b' k where
      h: "ugcd_shared (a div 2) (b div 2) (s + 1) = Some (a', b', s + 1 + k)" "0 < a'" "0 < b'"
        "odd a' \<or> odd b'" "a div 2 = a' * 2 ^ k" "b div 2 = b' * 2 ^ k" by blast
    have "a = a' * 2 ^ (Suc k)" "b = b' * 2 ^ (Suc k)"
      using True h(5,6) by (auto elim!: evenE)
    with h st show ?thesis
      by (intro exI[of _ a'] exI[of _ b'] exI[of _ "Suc k"]) simp
  qed
qed

lemma ugcd_loop_pos:
  "0 < a \<Longrightarrow> 0 < b \<Longrightarrow> odd a \<or> odd b \<Longrightarrow> ugcd_loop a b = Some (gcd a b)"
proof (induction "nat (a + b)" arbitrary: a b rule: less_induct)
  case less
  show ?case
  proof (cases "a \<noteq> b \<and> b > 1")
    case False
    then have st: "ugcd_loop a b = Some b" by (subst ugcd_loop.simps) auto
    from False less.prems have "a = b \<or> b = 1" by auto
    then show ?thesis using less.prems by (auto simp: st)
  next
    case True
    from ugcd_strip_pos[OF less.prems(1)] obtain a1 where
      a1: "ugcd_strip a = Some a1" "odd a1" "0 < a1" "a1 \<le> a" "odd a \<longrightarrow> a1 = a"
        "\<forall>y. odd y \<longrightarrow> gcd a1 y = gcd a y" by blast
    from ugcd_strip_pos[OF less.prems(2)] obtain b1 where
      b1: "ugcd_strip b = Some b1" "odd b1" "0 < b1" "b1 \<le> b" "odd b \<longrightarrow> b1 = b"
        "\<forall>y. odd y \<longrightarrow> gcd b1 y = gcd b y" by blast
    have g: "gcd a1 b1 = gcd a b"
    proof (cases "odd a")
      case True
      with a1 have "a1 = a" by simp
      moreover have "gcd b1 a = gcd b a" using b1(6) True by simp
      ultimately show ?thesis by (simp add: gcd.commute)
    next
      case False
      with less.prems(3) have ob: "odd b" by simp
      with b1 have "b1 = b" by simp
      moreover have "gcd a1 b = gcd a b" using a1(6) ob by simp
      ultimately show ?thesis by simp
    qed
    have st: "ugcd_loop a b =
        (if b1 > a1 then ugcd_loop (b1 - a1) a1
         else if a1 = b1 then Some b1 else ugcd_loop (a1 - b1) b1)"
      using True a1(1) b1(1) by (subst ugcd_loop.simps) simp
    show ?thesis
    proof (cases "b1 > a1")
      case True
      have m: "nat (b1 - a1 + a1) < nat (a + b)" using b1 a1 less.prems by simp
      have "ugcd_loop (b1 - a1) a1 = Some (gcd (b1 - a1) a1)"
        using True a1 by (intro less.hyps[OF m]) simp_all
      also have "gcd (b1 - a1) a1 = gcd a1 b1"
        by (metis gcd.commute gcd_diff1)
      finally show ?thesis using True by (simp add: st g)
    next
      case False
      show ?thesis
      proof (cases "a1 = b1")
        case True
        then show ?thesis using False b1(3) g by (simp add: st)
      next
        case ne: False
        with False have gt: "b1 < a1" by simp
        have m: "nat (a1 - b1 + b1) < nat (a + b)" using b1 a1 less.prems by simp
        have "ugcd_loop (a1 - b1) b1 = Some (gcd (a1 - b1) b1)"
          using gt b1 by (intro less.hyps[OF m]) simp_all
        also have "gcd (a1 - b1) b1 = gcd a1 b1" by (rule gcd_diff1)
        finally show ?thesis using False ne by (simp add: st g)
      qed
    qed
  qed
qed

lemma ugcd_correct:
  assumes "0 \<le> a" "0 \<le> b"
  shows "ugcd a b = Some (gcd a b)"
proof -
  consider "a = b" | "a \<noteq> b" "a = 0" | "a \<noteq> b" "a \<noteq> 0" "b = 0" | "a \<noteq> b" "a \<noteq> 0" "b \<noteq> 0"
    by blast
  then show ?thesis
  proof cases
    case 1 then show ?thesis using assms by (simp add: ugcd_def)
  next
    case 2 then show ?thesis using assms by (simp add: ugcd_def)
  next
    case 3 then show ?thesis using assms by (simp add: ugcd_def)
  next
    case 4
    with assms have pos: "0 < a" "0 < b" by simp_all
    from ugcd_shared_pos[OF pos, of 0] obtain a' b' k where
      h: "ugcd_shared a b 0 = Some (a', b', k)" "0 < a'" "0 < b'" "odd a' \<or> odd b'"
         "a = a' * 2 ^ k" "b = b' * 2 ^ k" by auto
    have l: "ugcd_loop a' b' = Some (gcd a' b')" using h by (intro ugcd_loop_pos)
    have "gcd a b = 2 ^ k * gcd a' b'"
      unfolding h(5,6) using gcd_mult_distrib_int[of "2 ^ k" a' b'] by (simp add: mult.commute)
    then show ?thesis using 4 h(1) l by (simp add: ugcd_def push_bit_eq_mult mult.commute)
  qed
qed

text \<open>
  C5: for all non-negative integers \<open>a\<close> and \<open>b\<close>, \<open>ugcd(a, b)\<close> returns the greatest
  common divisor of \<open>a\<close> and \<open>b\<close>; in particular \<open>ugcd(a, a) = a\<close>,
  \<open>ugcd(a, 0) = a\<close> and \<open>ugcd(0, b) = b\<close>.
\<close>

theorem ugcd_spec:
  "0 \<le> a \<Longrightarrow> 0 \<le> b \<Longrightarrow>
     ugcd a b = Some (gcd a b) \<and> ugcd a a = Some a \<and> ugcd a 0 = Some a \<and> ugcd 0 b = Some b"
  using ugcd_correct[of a b] ugcd_correct[of a a] ugcd_correct[of a 0] ugcd_correct[of 0 b]
  by simp

theorem ugcd_spec_witness:
  "(0::int) \<le> 12 \<and> (0::int) \<le> 18 \<and>
   ugcd 12 18 = Some (gcd 12 18) \<and> ugcd 12 12 = Some 12 \<and> ugcd 12 0 = Some 12 \<and> ugcd 0 18 = Some 18"
  using ugcd_spec[of 12 18] by simp

subsection \<open>The test as a whole\<close>

lemma twoMultiplicity_loop_returns:
  "bit n j \<Longrightarrow> m \<le> j \<Longrightarrow> \<exists>k. twoMultiplicity_loop n m = Some k"
proof (induction "j - m" arbitrary: m)
  case 0
  then have "bit n m" by simp
  then show ?case by (subst twoMultiplicity_loop.simps) (simp add: bit_test_int)
next
  case (Suc d)
  show ?case
  proof (cases "bit n m")
    case True
    then show ?thesis by (subst twoMultiplicity_loop.simps) (simp add: bit_test_int)
  next
    case False
    have "\<exists>k. twoMultiplicity_loop n (m + 1) = Some k"
      using Suc by (intro Suc.hyps(1)) simp_all
    then show ?thesis using False by (subst twoMultiplicity_loop.simps) (simp add: bit_test_int)
  qed
qed

lemma twoMultiplicity_returns: "\<exists>r. twoMultiplicity n = Some r"
proof (cases "n = 0")
  case True
  then show ?thesis by (simp add: twoMultiplicity_def)
next
  case False
  then obtain j where "bit n j" by (auto simp: bit_eq_iff)
  from twoMultiplicity_loop_returns[OF this, of 0] False show ?thesis
    by (simp add: twoMultiplicity_def)
qed

lemma roundsLoop_cases:
  assumes "roundsLoop test nBits nSub validBases numRounds round baseIndex rnd = Some (calls, v)"
  obtains
    (finished) "\<not> round < numRounds" "calls = []" "v = Inr (True, None, None)"
  | (undef) e where "round < numRounds"
      "selectBase validBases baseIndex nBits nSub rnd = Some (Inl e)" "calls = []" "v = Inl e"
  | (composite) base baseIndex' rnd' w dv where "round < numRounds"
      "selectBase validBases baseIndex nBits nSub rnd = Some (Inr (base, baseIndex', rnd'))"
      "test base = Some (calls, Composite w dv)" "v = Inr (False, Some w, dv)"
  | (continue) base baseIndex' rnd' calls1 calls2 where "round < numRounds"
      "selectBase validBases baseIndex nBits nSub rnd = Some (Inr (base, baseIndex', rnd'))"
      "test base = Some (calls1, NextRound)"
      "roundsLoop test nBits nSub validBases numRounds (round + 1) baseIndex' rnd' = Some (calls2, v)"
      "calls = calls1 @ calls2"
proof (cases "round < numRounds")
  case False
  with assms have "calls = []" "v = Inr (True, None, None)"
    by (subst (asm) roundsLoop.simps, simp)+
  with False show ?thesis by (rule finished)
next
  case True
  note rl = assms[unfolded roundsLoop.simps[of test nBits nSub validBases numRounds round baseIndex rnd]]
  show ?thesis
  proof (cases "selectBase validBases baseIndex nBits nSub rnd")
    case None
    with rl True show ?thesis by simp
  next
    case (Some sb)
    show ?thesis
    proof (cases sb)
      case (Inl e)
      with rl True Some have "calls = []" "v = Inl e" by simp_all
      with True Some Inl show ?thesis by (intro undef) simp_all
    next
      case (Inr t)
      obtain base baseIndex' rnd' where t: "t = (base, baseIndex', rnd')" by (cases t)
      note sel = Some[unfolded Inr t]
      show ?thesis
      proof (cases "test base")
        case None
        with rl True sel show ?thesis by simp
      next
        case (Some tr)
        obtain calls1 ex where tr: "tr = (calls1, ex)" by (cases tr)
        show ?thesis
        proof (cases ex)
          case (Composite w dv)
          with rl True sel Some tr have "calls = calls1" "v = Inr (False, Some w, dv)" by simp_all
          with True sel Some tr Composite show ?thesis by (intro composite) simp_all
        next
          case NextRound
          with rl True sel Some tr obtain calls2 where
            "roundsLoop test nBits nSub validBases numRounds (round + 1) baseIndex' rnd' = Some (calls2, v)"
            "calls = calls1 @ calls2"
            by (auto split: option.splits)
          with True sel Some tr NextRound show ?thesis by (intro continue) simp_all
        qed
      qed
    qed
  qed
qed

lemma roundsLoop_probablePrime:
  "roundsLoop test nBits nSub validBases numRounds round baseIndex rnd = Some (calls, Inr (pp, w, dv))
     \<Longrightarrow> pp \<Longrightarrow> w = None \<and> dv = None"
proof (induction "numRounds - round" arbitrary: round baseIndex rnd calls)
  case 0
  from "0.prems"(1) show ?case using 0(1) "0.prems"(2) by (cases rule: roundsLoop_cases) simp_all
next
  case (Suc k)
  from Suc.prems(1) show ?case
  proof (cases rule: roundsLoop_cases)
    case finished then show ?thesis by simp
  next
    case undef then show ?thesis by simp
  next
    case composite then show ?thesis using Suc.prems(2) by simp
  next
    case (continue base baseIndex' rnd' calls1 calls2)
    have "k = numRounds - (round + 1)" using Suc.hyps(2) by simp
    from Suc.hyps(1)[OF this continue(4) Suc.prems(2)] show ?thesis .
  qed
qed


lemma primalityTest_special:
  "\<bar>n0\<bar> < 2 \<Longrightarrow> primalityTest n0 options rnd =
     Some ([], Inr \<lparr>res_n = n0, res_probablePrime = False, res_witness = None, res_divisor = None\<rparr>)"
  "2 \<le> \<bar>n0\<bar> \<Longrightarrow> \<bar>n0\<bar> < 4 \<Longrightarrow> primalityTest n0 options rnd =
     Some ([], Inr \<lparr>res_n = n0, res_probablePrime = True, res_witness = None, res_divisor = None\<rparr>)"
  "4 \<le> \<bar>n0\<bar> \<Longrightarrow> even n0 \<Longrightarrow> primalityTest n0 options rnd =
     Some ([], Inr \<lparr>res_n = n0, res_probablePrime = False, res_witness = None, res_divisor = Some 2\<rparr>)"
  by (auto simp: primalityTest_def Let_def and_one_int)

lemma primalityTest_odd:
  assumes "odd n0" "5 \<le> \<bar>n0\<bar>"
  obtains r ctx where
    "twoMultiplicity (\<bar>n0\<bar> - 1) = Some r" "getReductionContext \<bar>n0\<bar> = Inr ctx"
    "ctx_ok ctx" "ctx_base ctx = \<bar>n0\<bar>"
    "\<And>options rnd. primalityTest n0 options rnd =
       (case validateBases (basesInForce options \<bar>n0\<bar>) (\<bar>n0\<bar> - 1) of
          Inl e \<Rightarrow> Some (setupCalls \<bar>n0\<bar>, Inl e)
        | Inr validBases \<Rightarrow>
            settle n0 (setupCalls \<bar>n0\<bar>)
              (rounds \<bar>n0\<bar> r ctx (opt_findDivisor options) (opt_numRounds options)
                 validBases rnd))"
proof -
  define n where "n = \<bar>n0\<bar>"
  have oddn: "odd n" "3 \<le> n" using assms by (simp_all add: n_def)
  from twoMultiplicity_returns[of "n - 1"] obtain r where r: "twoMultiplicity (n - 1) = Some r" ..
  from getReductionContext_ok[OF oddn] obtain ctx where
    ctx: "getReductionContext n = Inr ctx" "ctx_ok ctx" "ctx_base ctx = n" by blast
  have sgn: "(if n0 < 0 then - 1 else 1) * n = n0" by (simp add: n_def)
  have nn: "(if (if n0 < 0 then - 1 else (1::int)) = - 1 then - n0 else n0) = n"
    by (simp add: n_def)
  have c: "\<not> n < 2" "\<not> n < 4" "n AND 1 \<noteq> 0"
    using assms by (simp_all add: n_def and_one_int)
  show ?thesis
  proof (rule that[of r ctx])
    show "twoMultiplicity (\<bar>n0\<bar> - 1) = Some r" using r by (simp add: n_def)
    show "getReductionContext \<bar>n0\<bar> = Inr ctx" "ctx_ok ctx" "ctx_base ctx = \<bar>n0\<bar>"
      using ctx by (simp_all add: n_def)
    fix options rnd
    show "primalityTest n0 options rnd =
       (case validateBases (basesInForce options \<bar>n0\<bar>) (\<bar>n0\<bar> - 1) of
          Inl e \<Rightarrow> Some (setupCalls \<bar>n0\<bar>, Inl e)
        | Inr validBases \<Rightarrow>
            settle n0 (setupCalls \<bar>n0\<bar>)
              (rounds \<bar>n0\<bar> r ctx (opt_findDivisor options) (opt_numRounds options)
                 validBases rnd))"
      unfolding n_def[symmetric] primalityTest_def Let_def nn sgn millerRabin_def
        basesInForce_def setupCalls_def rounds_def
      using c r ctx(1) by (simp add: sgn)
  qed
qed

lemma settle_Some:
  assumes "settle n calls0 x = Some (calls, out)"
  obtains calls' v where "x = Some (calls', v)" "calls = calls0 @ calls'"
    "out = (case v of Inl e \<Rightarrow> Inl e
            | Inr (pp, w, dv) \<Rightarrow> Inr \<lparr>res_n = n, res_probablePrime = pp, res_witness = w,
                                      res_divisor = dv\<rparr>)"
  using assms by (cases "(n, calls0, x)" rule: settle.cases) auto

lemma int_cases_primality:
  fixes n :: int
  obtains (tiny) "\<bar>n\<bar> < 2" | (twothree) "2 \<le> \<bar>n\<bar>" "\<bar>n\<bar> < 4"
    | (even) "4 \<le> \<bar>n\<bar>" "even n" | (odd) "5 \<le> \<bar>n\<bar>" "odd n"
proof -
  have "\<bar>n\<bar> < 2 \<or> (2 \<le> \<bar>n\<bar> \<and> \<bar>n\<bar> < 4) \<or> (4 \<le> \<bar>n\<bar> \<and> even n) \<or> (5 \<le> \<bar>n\<bar> \<and> odd n)"
    by presburger
  then show ?thesis using that by blast
qed

lemma primalityTest_odd_cases:
  assumes "odd n0" "5 \<le> \<bar>n0\<bar>" "primalityTest n0 options rnd = Some (calls, out)"
  obtains
    (invalid) e where
      "validateBases (basesInForce options \<bar>n0\<bar>) (\<bar>n0\<bar> - 1) = Inl e"
      "calls = setupCalls \<bar>n0\<bar>" "out = Inl e"
  | (ran) r ctx validBases calls' v where
      "getReductionContext \<bar>n0\<bar> = Inr ctx" "ctx_ok ctx" "ctx_base ctx = \<bar>n0\<bar>"
      "validateBases (basesInForce options \<bar>n0\<bar>) (\<bar>n0\<bar> - 1) = Inr validBases"
      "rounds \<bar>n0\<bar> r ctx (opt_findDivisor options) (opt_numRounds options) validBases rnd
         = Some (calls', v)"
      "calls = setupCalls \<bar>n0\<bar> @ calls'"
      "out = (case v of Inl e \<Rightarrow> Inl e
              | Inr (pp, w, dv) \<Rightarrow> Inr \<lparr>res_n = n0, res_probablePrime = pp, res_witness = w,
                                        res_divisor = dv\<rparr>)"
proof (rule primalityTest_odd[OF assms(1,2)])
  fix r ctx
  assume ctx: "getReductionContext \<bar>n0\<bar> = Inr ctx" "ctx_ok ctx" "ctx_base ctx = \<bar>n0\<bar>"
  assume "\<And>options rnd. primalityTest n0 options rnd =
       (case validateBases (basesInForce options \<bar>n0\<bar>) (\<bar>n0\<bar> - 1) of
          Inl e \<Rightarrow> Some (setupCalls \<bar>n0\<bar>, Inl e)
        | Inr validBases \<Rightarrow>
            settle n0 (setupCalls \<bar>n0\<bar>)
              (rounds \<bar>n0\<bar> r ctx (opt_findDivisor options) (opt_numRounds options)
                 validBases rnd))"
  note eq = this[of options rnd]
  show thesis
  proof (cases "validateBases (basesInForce options \<bar>n0\<bar>) (\<bar>n0\<bar> - 1)")
    case (Inl e)
    with eq assms(3) show ?thesis by (intro invalid[of e]) simp_all
  next
    case (Inr validBases)
    with eq assms(3) have "settle n0 (setupCalls \<bar>n0\<bar>)
              (rounds \<bar>n0\<bar> r ctx (opt_findDivisor options) (opt_numRounds options)
                 validBases rnd) = Some (calls, out)" by simp
    then show ?thesis
      by (elim settle_Some) (rule ran[OF ctx Inr])
  qed
qed

text \<open>
  C10: whenever \<open>primalityTest\<close> returns a result whose \<open>probablePrime\<close> is true, its
  \<open>witness\<close> and its \<open>divisor\<close> are both null; a witness or a divisor comes only with
  \<open>probablePrime\<close> false.
\<close>

theorem primalityTest_probablePrime_no_witness:
  assumes "primalityTest n options rnd = Some (calls, Inr res)" "res_probablePrime res"
  shows "res_witness res = None \<and> res_divisor res = None"
proof (cases n rule: int_cases_primality)
  case tiny
  from assms show ?thesis by (auto simp: primalityTest_special(1)[OF tiny])
next
  case twothree
  from assms show ?thesis by (auto simp: primalityTest_special(2)[OF twothree])
next
  case even
  from assms show ?thesis by (auto simp: primalityTest_special(3)[OF even])
next
  case odd
  from odd(2,1) assms(1) show ?thesis
  proof (cases rule: primalityTest_odd_cases)
    case (invalid e)
    then show ?thesis by simp
  next
    case (ran r ctx validBases calls' v)
    from ran(7) obtain pp w dv where v: "v = Inr (pp, w, dv)"
      and res: "res = \<lparr>res_n = n, res_probablePrime = pp, res_witness = w, res_divisor = dv\<rparr>"
      by (cases v) auto
    from assms(2) res have pp by simp
    from roundsLoop_probablePrime[OF ran(5)[unfolded rounds_def v] this] res
    show ?thesis by simp
  qed
qed


theorem primalityTest_probablePrime_no_witness_witness:
  "primalityTest 5 \<lparr>opt_numRounds = None, opt_bases = BasesNull, opt_findDivisor = True,
       opt_small_determinism_mode = True\<rparr> [] =
     Some ([CallGetReductionContext 5, CallMontgomeryReduce 1, CallMontgomeryReduce 4,
            CallMontgomeryReduce 2, CallMontgomeryPow 1 1, CallMontgomerySqr 1],
       Inr \<lparr>res_n = 5, res_probablePrime = True, res_witness = None, res_divisor = None\<rparr>) \<and>
   res_probablePrime \<lparr>res_n = 5, res_probablePrime = True, res_witness = None, res_divisor = None\<rparr> \<and>
   res_witness \<lparr>res_n = 5, res_probablePrime = True, res_witness = None, res_divisor = None\<rparr> = None \<and>
   res_divisor \<lparr>res_n = 5, res_probablePrime = True, res_witness = None, res_divisor = None\<rparr> = None"
proof -
  have run: "primalityTest 5 \<lparr>opt_numRounds = None, opt_bases = BasesNull, opt_findDivisor = True,
       opt_small_determinism_mode = True\<rparr> [] =
     Some ([CallGetReductionContext 5, CallMontgomeryReduce 1, CallMontgomeryReduce 4,
            CallMontgomeryReduce 2, CallMontgomeryPow 1 1, CallMontgomerySqr 1],
       Inr \<lparr>res_n = 5, res_probablePrime = True, res_witness = None, res_divisor = None\<rparr>)"
    by code_simp
  have pp: "res_probablePrime \<lparr>res_n = 5, res_probablePrime = True, res_witness = None,
      res_divisor = None\<rparr>" by simp
  from primalityTest_probablePrime_no_witness[OF run pp] run pp show ?thesis by simp
qed

lemma validateBases_map_Inl:
  "validateBases_map bs nSub = Inl e \<Longrightarrow> \<exists>b\<in>set bs. e = RangeError b \<and> \<not> (2 \<le> b \<and> b < nSub)"
  by (induction bs) (auto split: if_splits sum.splits)

lemma validateBases_map_invalid:
  "\<exists>b\<in>set bs. \<not> (2 \<le> b \<and> b < nSub) \<Longrightarrow>
     \<exists>b\<in>set bs. \<not> (2 \<le> b \<and> b < nSub) \<and> validateBases_map bs nSub = Inl (RangeError b)"
proof (induction bs)
  case Nil
  then show ?case by simp
next
  case (Cons b bs)
  show ?case
  proof (cases "2 \<le> b \<and> b < nSub")
    case False
    then show ?thesis by auto
  next
    case True
    with Cons.prems have "\<exists>b\<in>set bs. \<not> (2 \<le> b \<and> b < nSub)" by auto
    from Cons.IH[OF this] True show ?thesis by auto
  qed
qed

lemma validateBases_map_Inr:
  "validateBases_map bs nSub = Inr vs \<Longrightarrow> vs = bs \<and> (\<forall>b\<in>set bs. 2 \<le> b \<and> b < nSub)"
  by (induction bs arbitrary: vs) (auto split: if_splits sum.splits)

lemma validateBases_map_valid:
  "\<forall>b\<in>set bs. 2 \<le> b \<and> b < nSub \<Longrightarrow> validateBases_map bs nSub = Inr bs"
  by (induction bs) auto

lemma validateBases_Inl:
  "validateBases bases nSub = Inl e \<Longrightarrow> e \<noteq> OddBaseError"
  by (auto simp: validateBases_def split: bases_value.splits sum.splits
      dest!: validateBases_map_Inl)

lemma selectBase_Inl:
  "selectBase validBases baseIndex nBits nSub rnd = Some (Inl e) \<Longrightarrow> e = MixTypeError"
  by (auto simp: selectBase_def split: option.splits if_splits)

lemma roundsLoop_Inl:
  "roundsLoop test nBits nSub validBases numRounds round baseIndex rnd = Some (calls, Inl e)
     \<Longrightarrow> e = MixTypeError"
proof (induction "numRounds - round" arbitrary: round baseIndex rnd calls)
  case 0
  from "0.prems" show ?case using 0(1) by (cases rule: roundsLoop_cases) simp_all
next
  case (Suc k)
  from Suc.prems show ?case
  proof (cases rule: roundsLoop_cases)
    case finished then show ?thesis by simp
  next
    case (undef e') then show ?thesis by (auto dest: selectBase_Inl)
  next
    case composite then show ?thesis by simp
  next
    case (continue base baseIndex' rnd' calls1 calls2)
    have "k = numRounds - (round + 1)" using Suc.hyps(2) by simp
    from Suc.hyps(1)[OF this continue(4)] show ?thesis .
  qed
qed

lemma millerRabinLoop_calls:
  "millerRabinLoop ctx oneReduced nSubReduced r i x = (calls, ex) \<Longrightarrow>
     CallGetReductionContext m \<notin> set calls"
proof (induction ctx oneReduced nSubReduced r i x arbitrary: calls ex rule: millerRabinLoop.induct)
  case (1 ctx oneReduced nSubReduced r i x)
  from "1.prems" show ?case
    by (subst (asm) millerRabinLoop.simps)
      (auto simp: Let_def split: if_splits prod.splits dest: "1.IH"[OF _ refl])
qed

lemma witnessDivisor_calls:
  "witnessDivisor findDivisor x ctx n = Some (calls, dv) \<Longrightarrow>
     CallGetReductionContext m \<notin> set calls"
  by (auto simp: witnessDivisor_def split: if_splits Option.bind_splits)

lemma strongTest_calls:
  "strongTest n r d ctx oneReduced nSubReduced findDivisor base = Some (calls, ex) \<Longrightarrow>
     CallGetReductionContext m \<notin> set calls"
  by (auto simp: strongTest_def Let_def split: if_splits prod.splits inner_exit.splits
      Option.bind_splits dest: millerRabinLoop_calls witnessDivisor_calls)

lemma testBase_calls:
  "testBase n r d ctx oneReduced nSubReduced findDivisor base = Some (calls, ex) \<Longrightarrow>
     CallGetReductionContext m \<notin> set calls"
  by (auto simp: testBase_def split: if_splits Option.bind_splits dest: strongTest_calls)

lemma roundsLoop_calls:
  assumes "\<And>base calls ex. test base = Some (calls, ex) \<Longrightarrow> c \<notin> set calls"
  shows "roundsLoop test nBits nSub validBases numRounds round baseIndex rnd = Some (calls, v)
     \<Longrightarrow> c \<notin> set calls"
proof (induction "numRounds - round" arbitrary: round baseIndex rnd calls)
  case 0
  from "0.prems" show ?case using 0(1) by (cases rule: roundsLoop_cases) simp_all
next
  case (Suc k)
  from Suc.prems show ?case
  proof (cases rule: roundsLoop_cases)
    case finished then show ?thesis by simp
  next
    case undef then show ?thesis by simp
  next
    case composite then show ?thesis using assms by blast
  next
    case (continue base baseIndex' rnd' calls1 calls2)
    have "k = numRounds - (round + 1)" using Suc.hyps(2) by simp
    from Suc.hyps(1)[OF this continue(4)] assms[OF continue(3)] continue(5)
    show ?thesis by simp
  qed
qed

text \<open>
  C9: on every input, \<open>primalityTest\<close> never fails with the error \<open>base must be odd\<close>,
  and every modulus it passes to \<open>getReductionContext\<close> is odd.
\<close>

theorem primalityTest_modulus_odd:
  assumes "primalityTest n options rnd = Some (calls, out)"
  shows "out \<noteq> Inl OddBaseError \<and> (\<forall>m. CallGetReductionContext m \<in> set calls \<longrightarrow> odd m)"
proof (cases n rule: int_cases_primality)
  case tiny
  from assms show ?thesis by (auto simp: primalityTest_special(1)[OF tiny])
next
  case twothree
  from assms show ?thesis by (auto simp: primalityTest_special(2)[OF twothree])
next
  case even
  from assms show ?thesis by (auto simp: primalityTest_special(3)[OF even])
next
  case odd
  have s: "\<forall>m. CallGetReductionContext m \<in> set (setupCalls \<bar>n\<bar>) \<longrightarrow> odd m"
    using odd(2) by (simp add: setupCalls_def)
  from odd(2,1) assms show ?thesis
  proof (cases rule: primalityTest_odd_cases)
    case (invalid e)
    with s validateBases_Inl[OF invalid(1)] show ?thesis by simp
  next
    case (ran r ctx validBases calls' v)
    have e: "out \<noteq> Inl OddBaseError"
    proof (cases v)
      case (Inl e)
      with roundsLoop_Inl[OF ran(5)[unfolded rounds_def Inl]] ran(7) show ?thesis by simp
    next
      case (Inr t)
      with ran(7) show ?thesis by (cases t) simp
    qed
    have "CallGetReductionContext m \<notin> set calls'" for m
      by (rule roundsLoop_calls[OF _ ran(5)[unfolded rounds_def]]) (rule testBase_calls)
    with s ran(6) e show ?thesis by auto
  qed
qed

theorem primalityTest_modulus_odd_witness:
  "primalityTest 15 \<lparr>opt_numRounds = None, opt_bases = BasesArray [2], opt_findDivisor = True,
       opt_small_determinism_mode = False\<rparr> [] =
     Some ([CallGetReductionContext 15, CallMontgomeryReduce 1, CallMontgomeryReduce 14,
            CallMontgomeryReduce 2, CallMontgomeryPow 2 7, CallMontgomerySqr 8,
            CallInvMontgomeryReduce 4],
       Inr \<lparr>res_n = 15, res_probablePrime = False, res_witness = Some 2,
            res_divisor = Some 3\<rparr>) \<and>
   CallGetReductionContext 15 \<in> set [CallGetReductionContext 15, CallMontgomeryReduce 1,
            CallMontgomeryReduce 14, CallMontgomeryReduce 2, CallMontgomeryPow 2 7,
            CallMontgomerySqr 8, CallInvMontgomeryReduce 4] \<and>
   odd (15::int) \<and>
   (Inr \<lparr>res_n = 15, res_probablePrime = False, res_witness = Some 2,
            res_divisor = Some 3\<rparr> :: error + PrimalityResult) \<noteq> Inl OddBaseError"
proof -
  have run: "primalityTest 15 \<lparr>opt_numRounds = None, opt_bases = BasesArray [2],
       opt_findDivisor = True, opt_small_determinism_mode = False\<rparr> [] =
     Some ([CallGetReductionContext 15, CallMontgomeryReduce 1, CallMontgomeryReduce 14,
            CallMontgomeryReduce 2, CallMontgomeryPow 2 7, CallMontgomerySqr 8,
            CallInvMontgomeryReduce 4],
       Inr \<lparr>res_n = 15, res_probablePrime = False, res_witness = Some 2,
            res_divisor = Some 3\<rparr>)"
    by code_simp
  from primalityTest_modulus_odd[OF run] run show ?thesis by simp
qed

text \<open>
  C4: for every integer \<open>n\<close>, options and random source, when \<open>primalityTest(n)\<close> returns
  a result, its \<open>n\<close> field is \<open>n\<close>, and \<open>primalityTest(-n)\<close> returns the same result
  (the same \<open>probablePrime\<close>, witness and divisor) with the \<open>n\<close> field \<open>-n\<close>.
\<close>

theorem primalityTest_negation:
  assumes "primalityTest n options rnd = Some (calls, Inr res)"
  shows "res_n res = n \<and>
         primalityTest (- n) options rnd = Some (calls, Inr (res\<lparr>res_n := - n\<rparr>))"
proof (cases n rule: int_cases_primality)
  case tiny
  then have "\<bar>- n\<bar> < 2" by simp
  from assms primalityTest_special(1)[OF this] show ?thesis
    by (auto simp: primalityTest_special(1)[OF tiny])
next
  case twothree
  then have "2 \<le> \<bar>- n\<bar>" "\<bar>- n\<bar> < 4" by simp_all
  from assms primalityTest_special(2)[OF this] show ?thesis
    by (auto simp: primalityTest_special(2)[OF twothree])
next
  case even
  then have "4 \<le> \<bar>- n\<bar>" "even (- n)" by simp_all
  from assms primalityTest_special(3)[OF this] show ?thesis
    by (auto simp: primalityTest_special(3)[OF even])
next
  case odd
  show ?thesis
  proof (rule primalityTest_odd[OF odd(2,1)])
    fix r ctx
    assume tm: "twoMultiplicity (\<bar>n\<bar> - 1) = Some r" and gc: "getReductionContext \<bar>n\<bar> = Inr ctx"
    assume eq: "\<And>options rnd. primalityTest n options rnd =
       (case validateBases (basesInForce options \<bar>n\<bar>) (\<bar>n\<bar> - 1) of
          Inl e \<Rightarrow> Some (setupCalls \<bar>n\<bar>, Inl e)
        | Inr validBases \<Rightarrow>
            settle n (setupCalls \<bar>n\<bar>)
              (rounds \<bar>n\<bar> r ctx (opt_findDivisor options) (opt_numRounds options)
                 validBases rnd))"
    have odd': "odd (- n)" "5 \<le> \<bar>- n\<bar>" using odd by simp_all
    show ?thesis
    proof (rule primalityTest_odd[OF odd'])
      fix r' ctx'
      assume "twoMultiplicity (\<bar>- n\<bar> - 1) = Some r'" "getReductionContext \<bar>- n\<bar> = Inr ctx'"
      with tm gc have same: "r' = r" "ctx' = ctx" by simp_all
      assume "\<And>options rnd. primalityTest (- n) options rnd =
       (case validateBases (basesInForce options \<bar>- n\<bar>) (\<bar>- n\<bar> - 1) of
          Inl e \<Rightarrow> Some (setupCalls \<bar>- n\<bar>, Inl e)
        | Inr validBases \<Rightarrow>
            settle (- n) (setupCalls \<bar>- n\<bar>)
              (rounds \<bar>- n\<bar> r' ctx' (opt_findDivisor options) (opt_numRounds options)
                 validBases rnd))"
      note eq' = this[of options rnd, unfolded same, simplified]
      show ?thesis
      proof (cases "validateBases (basesInForce options \<bar>n\<bar>) (\<bar>n\<bar> - 1)")
        case (Inl e)
        with eq[of options rnd] assms show ?thesis by simp
      next
        case (Inr validBases)
        with eq[of options rnd] assms have
          "settle n (setupCalls \<bar>n\<bar>)
              (rounds \<bar>n\<bar> r ctx (opt_findDivisor options) (opt_numRounds options)
                 validBases rnd) = Some (calls, Inr res)" by simp
        then show ?thesis
          unfolding eq' Inr
          by (cases "(n, setupCalls \<bar>n\<bar>,
                (rounds \<bar>n\<bar> r ctx (opt_findDivisor options) (opt_numRounds options)
                 validBases rnd))" rule: settle.cases) auto
      qed
    qed
  qed
qed

theorem primalityTest_negation_witness:
  "primalityTest 15 \<lparr>opt_numRounds = None, opt_bases = BasesArray [2], opt_findDivisor = True,
       opt_small_determinism_mode = False\<rparr> [] =
     Some ([CallGetReductionContext 15, CallMontgomeryReduce 1, CallMontgomeryReduce 14,
            CallMontgomeryReduce 2, CallMontgomeryPow 2 7, CallMontgomerySqr 8,
            CallInvMontgomeryReduce 4],
       Inr \<lparr>res_n = 15, res_probablePrime = False, res_witness = Some 2,
            res_divisor = Some 3\<rparr>) \<and>
   primalityTest (- 15) \<lparr>opt_numRounds = None, opt_bases = BasesArray [2], opt_findDivisor = True,
       opt_small_determinism_mode = False\<rparr> [] =
     Some ([CallGetReductionContext 15, CallMontgomeryReduce 1, CallMontgomeryReduce 14,
            CallMontgomeryReduce 2, CallMontgomeryPow 2 7, CallMontgomerySqr 8,
            CallInvMontgomeryReduce 4],
       Inr \<lparr>res_n = - 15, res_probablePrime = False, res_witness = Some 2,
            res_divisor = Some 3\<rparr>)"
proof -
  have run: "primalityTest 15 \<lparr>opt_numRounds = None, opt_bases = BasesArray [2],
       opt_findDivisor = True, opt_small_determinism_mode = False\<rparr> [] =
     Some ([CallGetReductionContext 15, CallMontgomeryReduce 1, CallMontgomeryReduce 14,
            CallMontgomeryReduce 2, CallMontgomeryPow 2 7, CallMontgomerySqr 8,
            CallInvMontgomeryReduce 4],
       Inr \<lparr>res_n = 15, res_probablePrime = False, res_witness = Some 2,
            res_divisor = Some 3\<rparr>)"
    by code_simp
  from primalityTest_negation[OF run] run show ?thesis by simp
qed

text \<open>
  C2 (amended): for every odd \<open>n \<ge> 5\<close> and a caller-supplied list of bases holding a
  value outside \<open>[2, n-2]\<close>, with \<open>small_determinism_mode\<close> off, \<open>primalityTest\<close> fails
  with the range error of such a base before any round runs; by then it has built the
  Montgomery context of \<open>n\<close> and reduced \<open>1\<close> and \<open>n-1\<close> into it, and made no other
  Montgomery call.
\<close>

theorem primalityTest_invalid_base:
  assumes "odd n" "5 \<le> n" "opt_bases options = BasesArray bs"
    "\<not> opt_small_determinism_mode options" "\<exists>b\<in>set bs. \<not> (2 \<le> b \<and> b \<le> n - 2)"
  shows "\<exists>b\<in>set bs. \<not> (2 \<le> b \<and> b \<le> n - 2) \<and>
           primalityTest n options rnd =
             Some ([CallGetReductionContext n, CallMontgomeryReduce 1,
                    CallMontgomeryReduce (n - 1)], Inl (RangeError b))"
proof -
  have abs: "\<bar>n\<bar> = n" "5 \<le> \<bar>n\<bar>" using assms(2) by simp_all
  have "b \<le> n - 2 \<longleftrightarrow> b < n - 1" for b by linarith
  with assms(5) have "\<exists>b\<in>set bs. \<not> (2 \<le> b \<and> b < n - 1)" by simp
  from validateBases_map_invalid[OF this] obtain b where
    b: "b \<in> set bs" "\<not> (2 \<le> b \<and> b < n - 1)" "validateBases_map bs (n - 1) = Inl (RangeError b)"
    by blast
  have v: "validateBases (basesInForce options n) (n - 1) = Inl (RangeError b)"
    using assms(3,4) b(3) by (simp add: basesInForce_def validateBases_def)
  have "primalityTest n options rnd = Some (setupCalls n, Inl (RangeError b))"
    by (rule primalityTest_odd[OF assms(1) abs(2)]) (simp add: abs v)
  with b show ?thesis by (auto simp: setupCalls_def)
qed


theorem primalityTest_invalid_base_witness:
  "odd (5::int) \<and> (5::int) \<le> 5 \<and>
   opt_bases \<lparr>opt_numRounds = None, opt_bases = BasesArray [4], opt_findDivisor = True,
       opt_small_determinism_mode = False\<rparr> = BasesArray [4] \<and>
   \<not> opt_small_determinism_mode \<lparr>opt_numRounds = None, opt_bases = BasesArray [4],
       opt_findDivisor = True, opt_small_determinism_mode = False\<rparr> \<and>
   (\<exists>b\<in>set [4::int]. \<not> (2 \<le> b \<and> b \<le> 5 - 2)) \<and>
   (\<exists>b\<in>set [4::int]. \<not> (2 \<le> b \<and> b \<le> 5 - 2) \<and>
      primalityTest 5 \<lparr>opt_numRounds = None, opt_bases = BasesArray [4], opt_findDivisor = True,
          opt_small_determinism_mode = False\<rparr> [] =
        Some ([CallGetReductionContext 5, CallMontgomeryReduce 1, CallMontgomeryReduce (5 - 1)],
          Inl (RangeError b)))"
  using primalityTest_invalid_base[of 5 "\<lparr>opt_numRounds = None, opt_bases = BasesArray [4],
       opt_findDivisor = True, opt_small_determinism_mode = False\<rparr>" "[4]" "[]"]
  by simp

text \<open>
  C2 (as stated, fails): for \<open>n = 5\<close> and the bases \<open>[4]\<close> the range error is raised
  after the Montgomery context has been built and two values reduced into it, not before
  any Montgomery computation.
\<close>

theorem primalityTest_invalid_base_counterexample:
  "primalityTest 5 \<lparr>opt_numRounds = None, opt_bases = BasesArray [4], opt_findDivisor = True,
       opt_small_determinism_mode = False\<rparr> [] =
     Some ([CallGetReductionContext 5, CallMontgomeryReduce 1, CallMontgomeryReduce 4],
       Inl (RangeError 4)) \<and>
   primalityTest 5 \<lparr>opt_numRounds = None, opt_bases = BasesArray [4], opt_findDivisor = True,
       opt_small_determinism_mode = False\<rparr> [] \<noteq> Some ([], Inl (RangeError 4))"
  by code_simp

subsection \<open>A round of the test\<close>

lemma coprime_of_inverse:
  fixes a b n :: int
  assumes "(a * b) mod n = 1"
  shows "coprime a n"
proof -
  have "coprime (a * b) n"
  proof (cases "n = 0")
    case True
    with assms show ?thesis by simp
  next
    case False
    have "coprime ((a * b) mod n) n" by (simp add: assms)
    with False show ?thesis by simp
  qed
  then show ?thesis by simp
qed

lemma ctx_ok_coprime:
  assumes "ctx_ok ctx"
  shows "coprime (ctx_rInv ctx) (ctx_base ctx)" "coprime (2 ^ ctx_shift ctx) (ctx_base ctx)"
proof -
  show "coprime (ctx_rInv ctx) (ctx_base ctx)"
    by (rule coprime_of_inverse[OF ctx_okD(7)[OF assms]])
  have "(2 ^ ctx_shift ctx * ctx_rInv ctx) mod ctx_base ctx = 1"
    using ctx_okD(7)[OF assms] by (simp add: mult.commute)
  then show "coprime (2 ^ ctx_shift ctx) (ctx_base ctx)" by (rule coprime_of_inverse)
qed

lemma coprime_mod_int:
  fixes a n :: int
  assumes "coprime a n" "0 < n"
  shows "coprime (a mod n) n"
  using assms by simp

lemma montgomeryMul_unit:
  assumes ok: "ctx_ok ctx"
    and a: "0 \<le> a" "a < ctx_base ctx" "coprime a (ctx_base ctx)"
    and b: "0 \<le> b" "b < ctx_base ctx" "coprime b (ctx_base ctx)"
  shows "0 \<le> montgomeryMul a b ctx" "montgomeryMul a b ctx < ctx_base ctx"
    "coprime (montgomeryMul a b ctx) (ctx_base ctx)"
proof -
  have pos: "0 < ctx_base ctx" using ctx_okD(2)[OF ok] by simp
  note eq = montgomeryMul_correct[OF ok a(1,2) b(1,2)]
  show "0 \<le> montgomeryMul a b ctx" "montgomeryMul a b ctx < ctx_base ctx"
    unfolding eq using pos by simp_all
  have "coprime (a * b * ctx_rInv ctx) (ctx_base ctx)"
    using a(3) b(3) ctx_ok_coprime(1)[OF ok] by simp
  then show "coprime (montgomeryMul a b ctx) (ctx_base ctx)"
    unfolding eq using pos by (rule coprime_mod_int)
qed

lemma montgomeryReduce_unit:
  assumes ok: "ctx_ok ctx" and a: "0 \<le> a" "coprime a (ctx_base ctx)"
  shows "0 \<le> montgomeryReduce a ctx" "montgomeryReduce a ctx < ctx_base ctx"
    "coprime (montgomeryReduce a ctx) (ctx_base ctx)"
proof -
  have pos: "0 < ctx_base ctx" using ctx_okD(2)[OF ok] by simp
  note eq = montgomeryReduce_nonneg[OF ok a(1)]
  show "0 \<le> montgomeryReduce a ctx" "montgomeryReduce a ctx < ctx_base ctx"
    unfolding eq using pos by simp_all
  have "coprime (a * 2 ^ ctx_shift ctx) (ctx_base ctx)"
    using a(2) ctx_ok_coprime(2)[OF ok] by simp
  then show "coprime (montgomeryReduce a ctx) (ctx_base ctx)"
    unfolding eq using pos by (rule coprime_mod_int)
qed

lemma invMontgomeryReduce_unit:
  assumes ok: "ctx_ok ctx" and a: "0 \<le> a" "coprime a (ctx_base ctx)"
  shows "0 \<le> invMontgomeryReduce a ctx" "invMontgomeryReduce a ctx < ctx_base ctx"
    "coprime (invMontgomeryReduce a ctx) (ctx_base ctx)"
proof -
  have pos: "0 < ctx_base ctx" using ctx_okD(2)[OF ok] by simp
  note eq = invMontgomeryReduce_nonneg[OF ok a(1)]
  show "0 \<le> invMontgomeryReduce a ctx" "invMontgomeryReduce a ctx < ctx_base ctx"
    unfolding eq using pos by simp_all
  have "coprime (a * ctx_rInv ctx) (ctx_base ctx)"
    using a(2) ctx_ok_coprime(1)[OF ok] by simp
  then show "coprime (invMontgomeryReduce a ctx) (ctx_base ctx)"
    unfolding eq using pos by (rule coprime_mod_int)
qed

lemma montgomeryPow_unit:
  assumes ok: "ctx_ok ctx" and a: "0 \<le> a" "a < ctx_base ctx" "coprime a (ctx_base ctx)"
    and e: "0 \<le> e"
  shows "0 \<le> montgomeryPow a e ctx" "montgomeryPow a e ctx < ctx_base ctx"
    "coprime (montgomeryPow a e ctx) (ctx_base ctx)"
proof -
  have pos: "0 < ctx_base ctx" using ctx_okD(2)[OF ok] by simp
  note eq = montgomeryPow_correct[OF ok a(1,2) e]
  show "0 \<le> montgomeryPow a e ctx" "montgomeryPow a e ctx < ctx_base ctx"
    unfolding eq using pos by simp_all
  have "coprime (invMontgomeryReduce a ctx ^ nat e * 2 ^ ctx_shift ctx) (ctx_base ctx)"
    using invMontgomeryReduce_unit(3)[OF ok a(1,3)] ctx_ok_coprime(2)[OF ok] by simp
  then show "coprime (montgomeryPow a e ctx) (ctx_base ctx)"
    unfolding eq using pos by (rule coprime_mod_int)
qed


lemma montgomerySqr_unit:
  "ctx_ok ctx \<Longrightarrow> unitForm ctx x \<Longrightarrow> unitForm ctx (montgomerySqr x ctx)"
  unfolding unitForm_def montgomerySqr_def
  using montgomeryMul_unit[of ctx x x] by simp

lemma millerRabinLoop_inv:
  "ctx_ok ctx \<Longrightarrow> unitForm ctx x \<Longrightarrow> x \<noteq> oneReduced \<Longrightarrow>
   millerRabinLoop ctx oneReduced nSubReduced r i x = (calls, ex) \<Longrightarrow>
   ex = SquareIsOne x' \<or> ex = NoMoreSquares x' \<Longrightarrow> unitForm ctx x' \<and> x' \<noteq> oneReduced"
proof (induction ctx oneReduced nSubReduced r i x arbitrary: calls ex
    rule: millerRabinLoop.induct)
  case (1 ctx oneReduced nSubReduced r i x)
  show ?case
  proof (cases "i < r")
    case False
    with "1.prems"(4) have "ex = NoMoreSquares x"
      by (subst (asm) millerRabinLoop.simps) simp
    with "1.prems" show ?thesis by auto
  next
    case True
    define y where "y = montgomerySqr x ctx"
    have yu: "unitForm ctx y" unfolding y_def by (rule montgomerySqr_unit) fact+
    show ?thesis
    proof (cases "y = oneReduced")
      case one: True
      with True "1.prems"(4) have "ex = SquareIsOne x"
        by (subst (asm) millerRabinLoop.simps) (simp add: y_def)
      with "1.prems" show ?thesis by auto
    next
      case notone: False
      show ?thesis
      proof (cases "y = nSubReduced")
        case True
        with \<open>i < r\<close> notone "1.prems"(4) have "ex = SquareIsMinusOne"
          by (subst (asm) millerRabinLoop.simps) (simp add: y_def)
        with "1.prems"(5) show ?thesis by simp
      next
        case False
        obtain calls' ex' where
          rec: "millerRabinLoop ctx oneReduced nSubReduced r (i + 1) y = (calls', ex')"
          by (cases "millerRabinLoop ctx oneReduced nSubReduced r (i + 1) y")
        with \<open>i < r\<close> notone False "1.prems"(4) have "ex = ex'"
          by (subst (asm) millerRabinLoop.simps) (simp add: y_def)
        with "1.prems"(5) have ex': "ex' = SquareIsOne x' \<or> ex' = NoMoreSquares x'" by simp
        from "1.IH"[OF \<open>i < r\<close> y_def notone False "1.prems"(1) yu notone rec ex']
        show ?thesis .
      qed
    qed
  qed
qed

lemma witnessDivisor_sound:
  assumes ok: "ctx_ok ctx" and cb: "ctx_base ctx = n"
    and x: "unitForm ctx x" "x \<noteq> montgomeryReduce 1 ctx"
  shows "\<exists>calls dv. witnessDivisor findDivisor x ctx n = Some (calls, dv) \<and>
           (\<forall>g. dv = Some g \<longrightarrow> g dvd n \<and> 1 < g \<and> g < n)"
proof (cases findDivisor)
  case False
  then show ?thesis by (simp add: witnessDivisor_def)
next
  case True
  define X where "X = invMontgomeryReduce x ctx"
  from x(1) have xr: "0 \<le> x" "x < ctx_base ctx" "coprime x (ctx_base ctx)"
    by (simp_all add: unitForm_def)
  have n3: "3 \<le> n" using ctx_okD(2)[OF ok] cb by simp
  have Xr: "0 \<le> X" "X < n" "coprime X n"
    using invMontgomeryReduce_unit[OF ok xr(1,3)] by (simp_all add: X_def cb)
  have X0: "X \<noteq> 0" using Xr(3) n3 by auto
  have X1: "X \<noteq> 1"
  proof
    assume "X = 1"
    with montgomery_form_inverse[OF ok xr(1,2)] have "x = 2 ^ ctx_shift ctx mod ctx_base ctx"
      by (simp add: X_def)
    with x(2) show False by (simp add: montgomeryReduce_nonneg[OF ok])
  qed
  from Xr(1) X0 X1 have X2: "0 < X - 1" by simp
  have u: "ugcd (X - 1) n = Some (gcd (X - 1) n)"
    using X2 n3 by (intro ugcd_correct) simp_all
  have g1: "gcd (X - 1) n dvd n" by simp
  have g2: "gcd (X - 1) n \<le> X - 1" using X2 by (rule gcd_le1_int)
  have "0 < gcd (X - 1) n" using n3 by (simp add: gcd_pos_int)
  then have g3: "gcd (X - 1) n \<noteq> 1 \<Longrightarrow> 1 < gcd (X - 1) n" by linarith
  show ?thesis
    using True u g1 g2 g3 Xr(2) by (auto simp: witnessDivisor_def X_def[symmetric])
qed

lemma strongTest_sound:
  assumes ok: "ctx_ok ctx" and cb: "ctx_base ctx = n"
    and one: "oneReduced = montgomeryReduce 1 ctx"
    and base: "0 \<le> base" and d: "0 \<le> d"
    and cop: "findDivisor \<longrightarrow> coprime base n"
  shows "\<exists>calls ex. strongTest n r d ctx oneReduced nSubReduced findDivisor base = Some (calls, ex)
           \<and> goodExit n base ex"
proof -
  define x where "x = montgomeryPow (montgomeryReduce base ctx) d ctx"
  show ?thesis
  proof (cases "x = oneReduced \<or> x = nSubReduced")
    case True
    then show ?thesis by (simp add: strongTest_def Let_def x_def[symmetric] goodExit_def)
  next
    case False
    obtain calls1 ex1 where
      ml: "millerRabinLoop ctx oneReduced nSubReduced r 0 x = (calls1, ex1)"
      by (cases "millerRabinLoop ctx oneReduced nSubReduced r 0 x")
    have wd: "\<exists>calls dv. witnessDivisor findDivisor x' ctx n = Some (calls, dv) \<and>
           (\<forall>g. dv = Some g \<longrightarrow> g dvd n \<and> 1 < g \<and> g < n)"
      if ex1: "ex1 = SquareIsOne x' \<or> ex1 = NoMoreSquares x'" for x'
    proof (cases findDivisor)
      case False
      then show ?thesis by (simp add: witnessDivisor_def)
    next
      case True
      with cop have c: "coprime base (ctx_base ctx)" by (simp add: cb)
      note br = montgomeryReduce_unit[OF ok base c]
      have "unitForm ctx x"
        unfolding unitForm_def x_def using montgomeryPow_unit[OF ok br d] by simp
      from millerRabinLoop_inv[OF ok this _ ml ex1] False
      have "unitForm ctx x'" "x' \<noteq> montgomeryReduce 1 ctx" by (simp_all add: one)
      then show ?thesis by (rule witnessDivisor_sound[OF ok cb])
    qed
    show ?thesis
    proof (cases ex1)
      case (SquareIsOne x')
      from wd[of x'] SquareIsOne obtain calls2 dv where
        "witnessDivisor findDivisor x' ctx n = Some (calls2, dv)"
        "\<forall>g. dv = Some g \<longrightarrow> g dvd n \<and> 1 < g \<and> g < n" by blast
      with False ml SquareIsOne show ?thesis
        by (simp add: strongTest_def Let_def x_def[symmetric] goodExit_def)
    next
      case SquareIsMinusOne
      with False ml show ?thesis
        by (simp add: strongTest_def Let_def x_def[symmetric] goodExit_def)
    next
      case (NoMoreSquares x')
      from wd[of x'] NoMoreSquares obtain calls2 dv where
        "witnessDivisor findDivisor x' ctx n = Some (calls2, dv)"
        "\<forall>g. dv = Some g \<longrightarrow> g dvd n \<and> 1 < g \<and> g < n" by blast
      with False ml NoMoreSquares show ?thesis
        by (simp add: strongTest_def Let_def x_def[symmetric] goodExit_def)
    qed
  qed
qed

lemma testBase_sound:
  assumes ok: "ctx_ok ctx" and cb: "ctx_base ctx = n"
    and one: "oneReduced = montgomeryReduce 1 ctx"
    and base: "2 \<le> base" "base < n - 1" and d: "0 \<le> d"
  shows "\<exists>calls ex. testBase n r d ctx oneReduced nSubReduced findDivisor base = Some (calls, ex)
           \<and> goodExit n base ex"
proof (cases findDivisor)
  case False
  with strongTest_sound[OF ok cb one _ d, of base findDivisor r nSubReduced] base(1)
  show ?thesis by (simp add: testBase_def)
next
  case True
  have n3: "3 \<le> n" using ctx_okD(2)[OF ok] cb by simp
  have u: "ugcd n base = Some (gcd n base)" using n3 base by (intro ugcd_correct) simp_all
  show ?thesis
  proof (cases "gcd n base = 1")
    case c: True
    then have "coprime base n" by (simp add: coprime_iff_gcd_eq_1 gcd.commute)
    with strongTest_sound[OF ok cb one _ d, of base findDivisor r nSubReduced] base(1)
    show ?thesis using True u c by (simp add: testBase_def)
  next
    case False
    have "gcd n base \<le> base" using base(1) by (intro gcd_le2_int) simp
    moreover have "0 < gcd n base" using n3 by (simp add: gcd_pos_int)
    then have "1 < gcd n base" using False by linarith
    ultimately have "gcd n base dvd n \<and> 1 < gcd n base \<and> gcd n base < n"
      using base(2) by simp
    then show ?thesis using True u False by (simp add: testBase_def goodExit_def)
  qed
qed

subsection \<open>Divisors found by the rounds\<close>

lemma getRandomBase_range:
  "getRandomBase nBits nSub rnd = Some (base, rnd') \<Longrightarrow> 2 \<le> base \<and> base < nSub"
  by (induction rnd) (auto simp: Let_def split: if_splits)

lemma selectBase_range:
  assumes "selectBase validBases baseIndex nBits nSub rnd = Some (Inr (base, baseIndex', rnd'))"
    and "\<And>bs. validBases = Some bs \<Longrightarrow> \<forall>b\<in>set bs. 2 \<le> b \<and> b < nSub"
  shows "2 \<le> base \<and> base < nSub"
proof (cases validBases)
  case None
  with assms(1) show ?thesis
    by (auto simp: selectBase_def split: option.splits dest: getRandomBase_range)
next
  case (Some bs)
  with assms(1) have "baseIndex < length bs" "base = bs ! baseIndex"
    by (auto simp: selectBase_def split: if_splits)
  with assms(2)[OF Some] show ?thesis by simp
qed

lemma roundsLoop_divisor:
  assumes test: "\<And>base. 2 \<le> base \<Longrightarrow> base < nSub \<Longrightarrow>
      \<exists>calls ex. test base = Some (calls, ex) \<and> goodExit n base ex"
    and vb: "\<And>bs. validBases = Some bs \<Longrightarrow> \<forall>b\<in>set bs. 2 \<le> b \<and> b < nSub"
  shows "roundsLoop test nBits nSub validBases numRounds round baseIndex rnd
           = Some (calls, Inr (pp, w, Some g)) \<Longrightarrow> g dvd n \<and> 1 < g \<and> g < n"
proof (induction "numRounds - round" arbitrary: round baseIndex rnd calls)
  case 0
  from "0.prems" show ?case using 0(1) by (cases rule: roundsLoop_cases) simp_all
next
  case (Suc k)
  from Suc.prems show ?case
  proof (cases rule: roundsLoop_cases)
    case finished then show ?thesis by simp
  next
    case undef then show ?thesis by simp
  next
    case (composite base baseIndex' rnd' w' dv')
    from selectBase_range[OF composite(2) vb] have "2 \<le> base" "base < nSub" by simp_all
    from test[OF this] composite(3) have "goodExit n base (Composite w' dv')" by auto
    with composite(4) show ?thesis by (simp add: goodExit_def)
  next
    case (continue base baseIndex' rnd' calls1 calls2)
    have "k = numRounds - (round + 1)" using Suc.hyps(2) by simp
    from Suc.hyps(1)[OF this continue(4)] show ?thesis .
  qed
qed

lemma validateBases_Inr:
  assumes "validateBases bases nSub = Inr validBases" "validBases = Some bs"
  shows "bases = BasesArray bs" "\<forall>b\<in>set bs. 2 \<le> b \<and> b < nSub"
  using assms
  by (auto simp: validateBases_def split: bases_value.splits sum.splits
      dest!: validateBases_map_Inr)

text \<open>
  C3: for every odd \<open>n \<ge> 5\<close> and every run of \<open>primalityTest\<close> with \<open>findDivisor\<close> true
  that returns a result with a divisor, the divisor divides \<open>n\<close> exactly and lies
  strictly between 1 and \<open>n\<close>.
\<close>

theorem primalityTest_divisor:
  assumes "odd n" "5 \<le> n" "opt_findDivisor options"
    and "primalityTest n options rnd = Some (calls, Inr res)"
    and "res_divisor res = Some g"
  shows "n mod g = 0 \<and> 1 < g \<and> g < n"
proof -
  have abs: "\<bar>n\<bar> = n" "5 \<le> \<bar>n\<bar>" using assms(2) by simp_all
  from assms(1) abs(2) assms(4) show ?thesis
  proof (cases rule: primalityTest_odd_cases)
    case (invalid e)
    then show ?thesis by simp
  next
    case (ran r ctx validBases calls' v)
    from ran(7) assms(5) obtain pp w where v: "v = Inr (pp, w, Some g)"
      by (cases v) auto
    have d: "0 \<le> drop_bit r (n - 1)" using assms(2) by simp
    have test: "\<exists>calls ex. testBase n r (drop_bit r (n - 1)) ctx (montgomeryReduce 1 ctx)
          (montgomeryReduce (n - 1) ctx) (opt_findDivisor options) base = Some (calls, ex)
          \<and> goodExit n base ex" if "2 \<le> base" "base < n - 1" for base
      using ran(2) ran(3)[unfolded abs] refl that d by (rule testBase_sound)
    have vb: "\<forall>b\<in>set bs. 2 \<le> b \<and> b < n - 1" if "validBases = Some bs" for bs
      using validateBases_Inr(2)[OF ran(4) that] by (simp add: abs)
    from roundsLoop_divisor[OF test vb ran(5)[unfolded rounds_def abs v]]
    have "g dvd n \<and> 1 < g \<and> g < n" by simp
    then show ?thesis by auto
  qed
qed

theorem primalityTest_divisor_witness:
  "odd (15::int) \<and> (5::int) \<le> 15 \<and>
   opt_findDivisor \<lparr>opt_numRounds = None, opt_bases = BasesArray [2], opt_findDivisor = True,
       opt_small_determinism_mode = False\<rparr> \<and>
   primalityTest 15 \<lparr>opt_numRounds = None, opt_bases = BasesArray [2], opt_findDivisor = True,
       opt_small_determinism_mode = False\<rparr> [] =
     Some ([CallGetReductionContext 15, CallMontgomeryReduce 1, CallMontgomeryReduce 14,
            CallMontgomeryReduce 2, CallMontgomeryPow 2 7, CallMontgomerySqr 8,
            CallInvMontgomeryReduce 4],
       Inr \<lparr>res_n = 15, res_probablePrime = False, res_witness = Some 2,
            res_divisor = Some 3\<rparr>) \<and>
   res_divisor \<lparr>res_n = 15, res_probablePrime = False, res_witness = Some 2,
            res_divisor = Some 3\<rparr> = Some 3 \<and>
   (15::int) mod 3 = 0 \<and> (1::int) < 3 \<and> (3::int) < 15"
proof -
  have run: "primalityTest 15 \<lparr>opt_numRounds = None, opt_bases = BasesArray [2],
       opt_findDivisor = True, opt_small_determinism_mode = False\<rparr> [] =
     Some ([CallGetReductionContext 15, CallMontgomeryReduce 1, CallMontgomeryReduce 14,
            CallMontgomeryReduce 2, CallMontgomeryPow 2 7, CallMontgomerySqr 8,
            CallInvMontgomeryReduce 4],
       Inr \<lparr>res_n = 15, res_probablePrime = False, res_witness = Some 2,
            res_divisor = Some 3\<rparr>)"
    by code_simp
  from primalityTest_divisor[OF _ _ _ run, of 3] run show ?thesis by simp
qed

subsection \<open>Given bases and the deterministic table\<close>

lemma roundsLoop_given_step:
  assumes "k < length bs"
  shows "roundsLoop test nBits nSub (Some bs) (length bs) k k rnd =
     (case test (bs ! k) of
        None \<Rightarrow> None
      | Some (calls, Composite w dv) \<Rightarrow> Some (calls, Inr (False, Some w, dv))
      | Some (calls, NextRound) \<Rightarrow>
          (case roundsLoop test nBits nSub (Some bs) (length bs) (k + 1) (k + 1) rnd of
             None \<Rightarrow> None
           | Some (calls', v) \<Rightarrow> Some (calls @ calls', v)))"
  using assms
  by (subst roundsLoop.simps)
    (auto simp: selectBase_def split: option.splits prod.splits round_exit.splits)

lemma roundsLoop_given_end:
  "roundsLoop test nBits nSub validBases numRounds numRounds baseIndex rnd =
     Some ([], Inr (True, None, None))"
  by (subst roundsLoop.simps) simp

lemma roundsLoop_given_total:
  assumes test: "\<And>base. base \<in> set bs \<Longrightarrow> \<exists>calls ex. test base = Some (calls, ex)"
  shows "k \<le> length bs \<Longrightarrow>
     \<exists>calls pp w dv. roundsLoop test nBits nSub (Some bs) (length bs) k k rnd
        = Some (calls, Inr (pp, w, dv))"
proof (induction "length bs - k" arbitrary: k)
  case 0
  then have "k = length bs" by simp
  then show ?case by (auto simp: roundsLoop_given_end)
next
  case (Suc m)
  then have lt: "k < length bs" by simp
  then have "bs ! k \<in> set bs" by simp
  from test[OF this] obtain calls ex where t: "test (bs ! k) = Some (calls, ex)" by blast
  show ?case
  proof (cases ex)
    case NextRound
    have "m = length bs - (k + 1)" "k + 1 \<le> length bs" using Suc.hyps(2) lt by simp_all
    from Suc.hyps(1)[OF this] obtain calls' pp w dv where
      "roundsLoop test nBits nSub (Some bs) (length bs) (k + 1) (k + 1) rnd
         = Some (calls', Inr (pp, w, dv))" by blast
    with t NextRound show ?thesis by (auto simp: roundsLoop_given_step[OF lt])
  next
    case (Composite w dv)
    with t show ?thesis by (auto simp: roundsLoop_given_step[OF lt])
  qed
qed

lemma roundsLoop_prefix:
  "k \<le> length bs \<Longrightarrow>
   roundsLoop test nBits nSub (Some bs) (length bs) k k rnd = Some (calls, Inr (False, w, dv)) \<Longrightarrow>
   roundsLoop test nBits nSub (Some (bs @ cs)) (length (bs @ cs)) k k rnd
     = Some (calls, Inr (False, w, dv))"
proof (induction "length bs - k" arbitrary: k calls)
  case 0
  then have "k = length bs" by simp
  with "0.prems"(2) show ?case by (simp add: roundsLoop_given_end)
next
  case (Suc m)
  then have lt: "k < length bs" by simp
  then have lt': "k < length (bs @ cs)" by simp
  have nth: "(bs @ cs) ! k = bs ! k" using lt by (simp add: nth_append)
  note l = Suc.prems(2)[unfolded roundsLoop_given_step[OF lt]]
  show ?case
  proof (cases "test (bs ! k)")
    case None
    with l show ?thesis by simp
  next
    case (Some t)
    obtain calls1 ex where t: "t = (calls1, ex)" by (cases t)
    show ?thesis
    proof (cases ex)
      case (Composite w' dv')
      with l Some t show ?thesis
        by (subst roundsLoop_given_step[OF lt']) (simp add: nth)
    next
      case NextRound
      with l Some t obtain calls2 where
        rec: "roundsLoop test nBits nSub (Some bs) (length bs) (k + 1) (k + 1) rnd
                = Some (calls2, Inr (False, w, dv))"
        and c: "calls = calls1 @ calls2"
        by (auto split: option.splits)
      have "m = length bs - (k + 1)" "k + 1 \<le> length bs" using Suc.hyps(2) lt by simp_all
      from Suc.hyps(1)[OF this rec] Some t NextRound c show ?thesis
        by (subst roundsLoop_given_step[OF lt']) (simp add: nth)
    qed
  qed
qed

lemma smallDeterminismBases_prefix:
  "n < 3474749660383 \<Longrightarrow> \<exists>cs. [2, 3, 5, 7, 11, 13, 17] = smallDeterminismBases n @ cs"
  by (simp add: smallDeterminismBases_def)

lemma smallDeterminismBases_small: "n < 2047 \<Longrightarrow> smallDeterminismBases n = [2]"
  by (simp add: smallDeterminismBases_def)


lemma primalityTest_bases_run:
  assumes "odd n0" "5 \<le> \<bar>n0\<bar>"
  obtains test where
    "\<And>base. 2 \<le> base \<Longrightarrow> base < \<bar>n0\<bar> - 1 \<Longrightarrow> \<exists>calls ex. test base = Some (calls, ex)"
    "\<And>options bs rnd. opt_findDivisor options \<Longrightarrow> basesInForce options \<bar>n0\<bar> = BasesArray bs \<Longrightarrow>
        \<forall>b\<in>set bs. 2 \<le> b \<and> b < \<bar>n0\<bar> - 1 \<Longrightarrow>
        primalityTest n0 options rnd =
          settle n0 (setupCalls \<bar>n0\<bar>)
            (roundsLoop test (bitLength \<bar>n0\<bar>) (\<bar>n0\<bar> - 1) (Some bs) (length bs) 0 0 rnd)"
proof (rule primalityTest_odd[OF assms])
  fix r ctx
  assume ctx: "ctx_ok ctx" "ctx_base ctx = \<bar>n0\<bar>"
  assume eq: "\<And>options rnd. primalityTest n0 options rnd =
       (case validateBases (basesInForce options \<bar>n0\<bar>) (\<bar>n0\<bar> - 1) of
          Inl e \<Rightarrow> Some (setupCalls \<bar>n0\<bar>, Inl e)
        | Inr validBases \<Rightarrow>
            settle n0 (setupCalls \<bar>n0\<bar>)
              (rounds \<bar>n0\<bar> r ctx (opt_findDivisor options) (opt_numRounds options)
                 validBases rnd))"
  define test where "test = testBase \<bar>n0\<bar> r (drop_bit r (\<bar>n0\<bar> - 1)) ctx (montgomeryReduce 1 ctx)
          (montgomeryReduce (\<bar>n0\<bar> - 1) ctx) True"
  have d: "0 \<le> drop_bit r (\<bar>n0\<bar> - 1)" using assms(2) by simp
  show thesis
  proof (rule that[of test])
    fix base :: int
    assume "2 \<le> base" "base < \<bar>n0\<bar> - 1"
    with testBase_sound[OF ctx refl this d, of r "montgomeryReduce (\<bar>n0\<bar> - 1) ctx" True]
    show "\<exists>calls ex. test base = Some (calls, ex)" unfolding test_def by blast
  next
    fix options bs rnd
    assume fd: "opt_findDivisor options" and b: "basesInForce options \<bar>n0\<bar> = BasesArray bs"
      and r: "\<forall>b\<in>set bs. 2 \<le> b \<and> b < \<bar>n0\<bar> - 1"
    have v: "validateBases (BasesArray bs) (\<bar>n0\<bar> - 1) = Inr (Some bs)"
      using validateBases_map_valid[OF r] by (simp add: validateBases_def)
    show "primalityTest n0 options rnd =
          settle n0 (setupCalls \<bar>n0\<bar>)
            (roundsLoop test (bitLength \<bar>n0\<bar>) (\<bar>n0\<bar> - 1) (Some bs) (length bs) 0 0 rnd)"
      unfolding eq[of options rnd] b v test_def
      using fd by (simp add: rounds_def chooseNumRounds_def)
  qed
qed

lemma basesInForce_calls:
  "basesInForce sevenBasesCall n = BasesArray [2, 3, 5, 7, 11, 13, 17]"
  "n < 341550071728321 \<Longrightarrow> basesInForce smallDeterminismCall n = BasesArray (smallDeterminismBases n)"
  "opt_findDivisor sevenBasesCall" "opt_findDivisor smallDeterminismCall"
  by (simp_all add: basesInForce_def sevenBasesCall_def smallDeterminismCall_def)

text \<open>
  The calls \<open>primalityTest(n, {bases: [2,3,5,7,11,13,17]})\<close> and
  \<open>primalityTest(n, {small_determinism_mode: true})\<close> for \<open>|n| < 3474749660383\<close>. When
  \<open>|n| < 4\<close> or \<open>n\<close> is even the two outcomes are equal. When \<open>n\<close> is odd and
  \<open>5 \<le> |n| \<le> 18\<close> the first call fails with a range error and the second returns a
  result. When \<open>n\<close> is odd and \<open>|n| \<ge> 19\<close> both calls return a result, and the table
  of \<open>small_determinism_mode\<close> is a prefix of the seven bases: a result of the second
  call with \<open>probablePrime\<close> false is also the result of the first, and a result of the
  first with \<open>probablePrime\<close> true is also the result of the second. Whether a number
  that passes the bases of the table also passes the remaining ones is left open here.
\<close>

lemma small_determinism_and_seven_bases:
  assumes "\<bar>n\<bar> < 3474749660383"
  shows
    "(\<bar>n\<bar> < 4 \<or> even n \<longrightarrow>
        primalityTest n sevenBasesCall rnd = primalityTest n smallDeterminismCall rnd) \<and>
     (odd n \<and> 5 \<le> \<bar>n\<bar> \<and> \<bar>n\<bar> \<le> 18 \<longrightarrow>
        (\<exists>b. primalityTest n sevenBasesCall rnd = Some (setupCalls \<bar>n\<bar>, Inl (RangeError b))) \<and>
        (\<exists>calls res. primalityTest n smallDeterminismCall rnd = Some (calls, Inr res))) \<and>
     (odd n \<and> 19 \<le> \<bar>n\<bar> \<longrightarrow>
        (\<exists>calls res. primalityTest n smallDeterminismCall rnd = Some (calls, Inr res)) \<and>
        (\<exists>calls res. primalityTest n sevenBasesCall rnd = Some (calls, Inr res)) \<and>
        (\<forall>calls res. primalityTest n smallDeterminismCall rnd = Some (calls, Inr res) \<and>
             \<not> res_probablePrime res \<longrightarrow>
           primalityTest n sevenBasesCall rnd = Some (calls, Inr res)) \<and>
        (\<forall>calls res. primalityTest n sevenBasesCall rnd = Some (calls, Inr res) \<and>
             res_probablePrime res \<longrightarrow>
           (\<exists>calls'. primalityTest n smallDeterminismCall rnd = Some (calls', Inr res))))"
proof -
  have p1: "primalityTest n sevenBasesCall rnd = primalityTest n smallDeterminismCall rnd"
    if "\<bar>n\<bar> < 4 \<or> even n"
  proof -
    from that consider "\<bar>n\<bar> < 2" | "2 \<le> \<bar>n\<bar>" "\<bar>n\<bar> < 4" | "4 \<le> \<bar>n\<bar>" "even n" by linarith
    then show ?thesis by cases (simp_all add: primalityTest_special)
  qed
  have p2: "(\<exists>b. primalityTest n sevenBasesCall rnd = Some (setupCalls \<bar>n\<bar>, Inl (RangeError b))) \<and>
        (\<exists>calls res. primalityTest n smallDeterminismCall rnd = Some (calls, Inr res))"
    if a: "odd n \<and> 5 \<le> \<bar>n\<bar> \<and> \<bar>n\<bar> \<le> 18"
  proof
  from a have o: "odd n" "5 \<le> \<bar>n\<bar>" by simp_all
  have "\<exists>b\<in>set [2, 3, 5, 7, 11, 13, 17]. \<not> (2 \<le> b \<and> b < \<bar>n\<bar> - 1)" using a by simp
  from validateBases_map_invalid[OF this] obtain b where
    "validateBases_map [2, 3, 5, 7, 11, 13, 17] (\<bar>n\<bar> - 1) = Inl (RangeError b)" by blast
  then have v: "validateBases (basesInForce sevenBasesCall \<bar>n\<bar>) (\<bar>n\<bar> - 1) = Inl (RangeError b)"
    by (simp add: basesInForce_calls validateBases_def)
  have "primalityTest n sevenBasesCall rnd = Some (setupCalls \<bar>n\<bar>, Inl (RangeError b))"
    by (rule primalityTest_odd[OF o]) (simp add: v)
  then show "\<exists>b. primalityTest n sevenBasesCall rnd = Some (setupCalls \<bar>n\<bar>, Inl (RangeError b))" ..
  show "\<exists>calls res. primalityTest n smallDeterminismCall rnd = Some (calls, Inr res)"
  proof (rule primalityTest_bases_run[OF o])
    fix test :: "int \<Rightarrow> (mont_call list \<times> round_exit) option"
    assume total: "\<And>base. 2 \<le> base \<Longrightarrow> base < \<bar>n\<bar> - 1 \<Longrightarrow> \<exists>calls ex. test base = Some (calls, ex)"
    assume run: "\<And>options bs rnd. opt_findDivisor options \<Longrightarrow>
        basesInForce options \<bar>n\<bar> = BasesArray bs \<Longrightarrow>
        \<forall>b\<in>set bs. 2 \<le> b \<and> b < \<bar>n\<bar> - 1 \<Longrightarrow>
        primalityTest n options rnd =
          settle n (setupCalls \<bar>n\<bar>)
            (roundsLoop test (bitLength \<bar>n\<bar>) (\<bar>n\<bar> - 1) (Some bs) (length bs) 0 0 rnd)"
    have b: "basesInForce smallDeterminismCall \<bar>n\<bar> = BasesArray [2]"
      using a by (simp add: basesInForce_calls smallDeterminismBases_small)
    have r: "\<forall>b\<in>set [2::int]. 2 \<le> b \<and> b < \<bar>n\<bar> - 1" using a by simp
    have "\<exists>calls pp w dv.
        roundsLoop test (bitLength \<bar>n\<bar>) (\<bar>n\<bar> - 1) (Some [2]) (length [2::int]) 0 0 rnd
          = Some (calls, Inr (pp, w, dv))"
      using r by (intro roundsLoop_given_total total) simp_all
    then show ?thesis
      unfolding run[OF basesInForce_calls(4) b r] by auto
  qed
  qed
  have p3: "(\<exists>calls res. primalityTest n smallDeterminismCall rnd = Some (calls, Inr res)) \<and>
        (\<exists>calls res. primalityTest n sevenBasesCall rnd = Some (calls, Inr res)) \<and>
        (\<forall>calls res. primalityTest n smallDeterminismCall rnd = Some (calls, Inr res) \<and>
             \<not> res_probablePrime res \<longrightarrow>
           primalityTest n sevenBasesCall rnd = Some (calls, Inr res)) \<and>
        (\<forall>calls res. primalityTest n sevenBasesCall rnd = Some (calls, Inr res) \<and>
             res_probablePrime res \<longrightarrow>
           (\<exists>calls'. primalityTest n smallDeterminismCall rnd = Some (calls', Inr res)))"
    if a: "odd n \<and> 19 \<le> \<bar>n\<bar>"
  proof -
  from a have o: "odd n" "5 \<le> \<bar>n\<bar>" by simp_all
  define P where "P = smallDeterminismBases \<bar>n\<bar>"
  define L :: "int list" where "L = [2, 3, 5, 7, 11, 13, 17]"
  from smallDeterminismBases_prefix[OF assms] obtain cs where cs: "L = P @ cs"
    by (auto simp: P_def L_def)
  have rL: "\<forall>b\<in>set L. 2 \<le> b \<and> b < \<bar>n\<bar> - 1" using a by (simp add: L_def)
  then have rP: "\<forall>b\<in>set P. 2 \<le> b \<and> b < \<bar>n\<bar> - 1" by (simp add: cs)
  have bS: "basesInForce smallDeterminismCall \<bar>n\<bar> = BasesArray P"
    using assms by (simp add: basesInForce_calls P_def)
  have bE: "basesInForce sevenBasesCall \<bar>n\<bar> = BasesArray L"
    by (simp add: basesInForce_calls L_def)
  show ?thesis
  proof (rule primalityTest_bases_run[OF o])
    fix test :: "int \<Rightarrow> (mont_call list \<times> round_exit) option"
    assume total: "\<And>base. 2 \<le> base \<Longrightarrow> base < \<bar>n\<bar> - 1 \<Longrightarrow> \<exists>calls ex. test base = Some (calls, ex)"
    assume run: "\<And>options bs rnd. opt_findDivisor options \<Longrightarrow>
        basesInForce options \<bar>n\<bar> = BasesArray bs \<Longrightarrow>
        \<forall>b\<in>set bs. 2 \<le> b \<and> b < \<bar>n\<bar> - 1 \<Longrightarrow>
        primalityTest n options rnd =
          settle n (setupCalls \<bar>n\<bar>)
            (roundsLoop test (bitLength \<bar>n\<bar>) (\<bar>n\<bar> - 1) (Some bs) (length bs) 0 0 rnd)"
    define loop where "loop bs = roundsLoop test (bitLength \<bar>n\<bar>) (\<bar>n\<bar> - 1) (Some bs) (length bs) 0 0 rnd"
      for bs
    note eS = run[OF basesInForce_calls(4) bS rP, of rnd, folded loop_def]
    note eE = run[OF basesInForce_calls(3) bE rL, of rnd, folded loop_def]
    obtain cP ppP wP dvP where lP: "loop P = Some (cP, Inr (ppP, wP, dvP))"
      unfolding loop_def using roundsLoop_given_total[of P test 0] total rP by (metis le0)
    obtain cL ppL wL dvL where lL: "loop L = Some (cL, Inr (ppL, wL, dvL))"
      unfolding loop_def using roundsLoop_given_total[of L test 0] total rL by (metis le0)
    have pre: "loop L = Some (cP, Inr (False, wP, dvP))" if "\<not> ppP"
      using roundsLoop_prefix[of 0 P test _ _ rnd cP wP dvP cs] lP that
      by (simp add: loop_def cs)
    have nowit: "wP = None \<and> dvP = None" if ppP
      using roundsLoop_probablePrime[OF lP[unfolded loop_def] that] .
    have nowitL: "wL = None \<and> dvL = None" if ppL
      using roundsLoop_probablePrime[OF lL[unfolded loop_def] that] .
    have 1: "\<exists>calls res. primalityTest n smallDeterminismCall rnd = Some (calls, Inr res)"
      by (simp add: eS lP)
    have 2: "\<exists>calls res. primalityTest n sevenBasesCall rnd = Some (calls, Inr res)"
      by (simp add: eE lL)
    have 3: "primalityTest n sevenBasesCall rnd = Some (calls, Inr res)"
      if "primalityTest n smallDeterminismCall rnd = Some (calls, Inr res) \<and> \<not> res_probablePrime res"
      for calls res
    proof -
      from that have "\<not> ppP" by (auto simp: eS lP)
      from pre[OF this] that show ?thesis by (auto simp: eS eE lP)
    qed
    have 4: "\<exists>calls'. primalityTest n smallDeterminismCall rnd = Some (calls', Inr res)"
      if "primalityTest n sevenBasesCall rnd = Some (calls, Inr res) \<and> res_probablePrime res"
      for calls res
    proof -
      from that have ppL and res: "res = \<lparr>res_n = n, res_probablePrime = ppL, res_witness = wL,
          res_divisor = dvL\<rparr>" by (auto simp: eE lL)
      have ppP
      proof (rule ccontr)
        assume "\<not> ppP"
        from pre[OF this] lL \<open>ppL\<close> show False by simp
      qed
      with nowit nowitL[OF \<open>ppL\<close>] \<open>ppL\<close> res show ?thesis by (simp add: eS lP)
    qed
    from 1 2 3 4 show ?thesis by blast
  qed
  qed
  from p1 p2 p3 show ?thesis by blast
qed

text \<open>
  For \<open>n = 5\<close> the call with the seven bases is rejected with a range error (the base 5
  is not below \<open>n - 1\<close>), while the call with \<open>small_determinism_mode\<close> returns a
  result.
\<close>

lemma seven_bases_range_error_at_5:
  "primalityTest 5 sevenBasesCall [] =
     Some ([CallGetReductionContext 5, CallMontgomeryReduce 1, CallMontgomeryReduce 4],
       Inl (RangeError 5)) \<and>
   primalityTest 5 smallDeterminismCall [] =
     Some ([CallGetReductionContext 5, CallMontgomeryReduce 1, CallMontgomeryReduce 4,
            CallMontgomeryReduce 2, CallMontgomeryPow 1 1, CallMontgomerySqr 1],
       Inr \<lparr>res_n = 5, res_probablePrime = True, res_witness = None, res_divisor = None\<rparr>)"
  by code_simp

text \<open>The comparison at 4, 5, 21 and 19.\<close>

lemma small_determinism_and_seven_bases_examples:
  "\<bar>4::int\<bar> < 3474749660383 \<and> (\<bar>4::int\<bar> < 4 \<or> even (4::int)) \<and>
   primalityTest 4 sevenBasesCall [] = primalityTest 4 smallDeterminismCall [] \<and>
   \<bar>5::int\<bar> < 3474749660383 \<and> odd (5::int) \<and> 5 \<le> \<bar>5::int\<bar> \<and> \<bar>5::int\<bar> \<le> 18 \<and>
   (\<exists>b. primalityTest 5 sevenBasesCall [] = Some (setupCalls \<bar>5\<bar>, Inl (RangeError b))) \<and>
   (\<exists>calls res. primalityTest 5 smallDeterminismCall [] = Some (calls, Inr res)) \<and>
   \<bar>21::int\<bar> < 3474749660383 \<and> odd (21::int) \<and> 19 \<le> \<bar>21::int\<bar> \<and>
   primalityTest 21 smallDeterminismCall [] =
     Some ([CallGetReductionContext 21, CallMontgomeryReduce 1, CallMontgomeryReduce 20,
            CallMontgomeryReduce 2, CallMontgomeryPow 1 5, CallMontgomerySqr 16,
            CallMontgomerySqr 8, CallInvMontgomeryReduce 2],
       Inr \<lparr>res_n = 21, res_probablePrime = False, res_witness = Some 2,
            res_divisor = Some 3\<rparr>) \<and>
   \<not> res_probablePrime \<lparr>res_n = 21, res_probablePrime = False, res_witness = Some 2,
            res_divisor = Some 3\<rparr> \<and>
   primalityTest 21 sevenBasesCall [] =
     Some ([CallGetReductionContext 21, CallMontgomeryReduce 1, CallMontgomeryReduce 20,
            CallMontgomeryReduce 2, CallMontgomeryPow 1 5, CallMontgomerySqr 16,
            CallMontgomerySqr 8, CallInvMontgomeryReduce 2],
       Inr \<lparr>res_n = 21, res_probablePrime = False, res_witness = Some 2,
            res_divisor = Some 3\<rparr>) \<and>
   \<bar>19::int\<bar> < 3474749660383 \<and> odd (19::int) \<and> 19 \<le> \<bar>19::int\<bar> \<and>
   primalityTest 19 sevenBasesCall [] =
     Some ([CallGetReductionContext 19, CallMontgomeryReduce 1, CallMontgomeryReduce 18,
            CallMontgomeryReduce 2, CallMontgomeryPow 7 9, CallMontgomeryReduce 3,
            CallMontgomeryPow 1 9, CallMontgomeryReduce 5, CallMontgomeryPow 8 9,
            CallMontgomeryReduce 7, CallMontgomeryPow 15 9, CallMontgomeryReduce 11,
            CallMontgomeryPow 10 9, CallMontgomeryReduce 13, CallMontgomeryPow 17 9,
            CallMontgomeryReduce 17, CallMontgomeryPow 12 9],
       Inr \<lparr>res_n = 19, res_probablePrime = True, res_witness = None, res_divisor = None\<rparr>) \<and>
   res_probablePrime \<lparr>res_n = 19, res_probablePrime = True, res_witness = None,
       res_divisor = None\<rparr> \<and>
   (\<exists>calls'. primalityTest 19 smallDeterminismCall [] =
      Some (calls', Inr \<lparr>res_n = 19, res_probablePrime = True, res_witness = None,
                         res_divisor = None\<rparr>))"
proof -
  have s21: "primalityTest 21 smallDeterminismCall [] =
     Some ([CallGetReductionContext 21, CallMontgomeryReduce 1, CallMontgomeryReduce 20,
            CallMontgomeryReduce 2, CallMontgomeryPow 1 5, CallMontgomerySqr 16,
            CallMontgomerySqr 8, CallInvMontgomeryReduce 2],
       Inr \<lparr>res_n = 21, res_probablePrime = False, res_witness = Some 2,
            res_divisor = Some 3\<rparr>)"
    by code_simp
  have e19: "primalityTest 19 sevenBasesCall [] =
     Some ([CallGetReductionContext 19, CallMontgomeryReduce 1, CallMontgomeryReduce 18,
            CallMontgomeryReduce 2, CallMontgomeryPow 7 9, CallMontgomeryReduce 3,
            CallMontgomeryPow 1 9, CallMontgomeryReduce 5, CallMontgomeryPow 8 9,
            CallMontgomeryReduce 7, CallMontgomeryPow 15 9, CallMontgomeryReduce 11,
            CallMontgomeryPow 10 9, CallMontgomeryReduce 13, CallMontgomeryPow 17 9,
            CallMontgomeryReduce 17, CallMontgomeryPow 12 9],
       Inr \<lparr>res_n = 19, res_probablePrime = True, res_witness = None, res_divisor = None\<rparr>)"
    by code_simp
  have a4: "\<bar>4::int\<bar> < 3474749660383" and a5: "\<bar>5::int\<bar> < 3474749660383"
    and a21: "\<bar>21::int\<bar> < 3474749660383" and a19: "\<bar>19::int\<bar> < 3474749660383"
    by simp_all
  have h4: "\<bar>4::int\<bar> < 4 \<or> even (4::int)" by simp
  have h5: "odd (5::int) \<and> 5 \<le> \<bar>5::int\<bar> \<and> \<bar>5::int\<bar> \<le> 18" by simp
  have h21: "odd (21::int) \<and> 19 \<le> \<bar>21::int\<bar>" by simp
  have h19: "odd (19::int) \<and> 19 \<le> \<bar>19::int\<bar>" by simp
  have np: "\<not> res_probablePrime \<lparr>res_n = 21, res_probablePrime = False, res_witness = Some 2,
            res_divisor = Some 3\<rparr>" by simp
  have pp: "res_probablePrime \<lparr>res_n = 19, res_probablePrime = True, res_witness = None,
       res_divisor = None\<rparr>" by simp
  note w4 = small_determinism_and_seven_bases[OF a4, of "[]", THEN conjunct1, THEN mp, OF h4]
  note w5 = small_determinism_and_seven_bases[OF a5, of "[]", THEN conjunct2, THEN conjunct1,
      THEN mp, OF h5]
  note t21 = small_determinism_and_seven_bases[OF a21, of "[]", THEN conjunct2, THEN conjunct2,
      THEN mp, OF h21]
  note w21 = t21[THEN conjunct2, THEN conjunct2, THEN conjunct1, THEN spec, THEN spec,
      THEN mp, OF conjI[OF s21 np]]
  note t19 = small_determinism_and_seven_bases[OF a19, of "[]", THEN conjunct2, THEN conjunct2,
      THEN mp, OF h19]
  note w19 = t19[THEN conjunct2, THEN conjunct2, THEN conjunct2, THEN spec, THEN spec,
      THEN mp, OF conjI[OF e19 pp]]
  show ?thesis
    by (intro conjI a4 a5 a21 a19 h4 w4 h5[THEN conjunct1] h5[THEN conjunct2, THEN conjunct1]
        h5[THEN conjunct2, THEN conjunct2] w5[THEN conjunct1] w5[THEN conjunct2]
        h21[THEN conjunct1] h21[THEN conjunct2] s21 np w21
        h19[THEN conjunct1] h19[THEN conjunct2] e19 pp w19)
qed

end
